theory Spec2Isabelle
  imports Main
begin

section \<open>Python values, exceptions and loops\<close>

text \<open>
  The exceptions that the methods of class \<open>BigInt\<close> can raise. Python's \<open>ValueError\<close>
  occurs twice in the source and is split by its origin: \<open>ZeroModulus\<close> is the
  \<open>ValueError("Cannot perform modulo operation with zero modulus")\<close> of \<open>__mod__\<close>,
  \<open>InvalidDigit\<close> is the \<open>ValueError\<close> of the builtin \<open>int(digit, base)\<close>, and
  \<open>NegativeShift\<close> is the \<open>ValueError\<close> of \<open><<\<close> with a negative shift count.
  \<open>TypeError\<close> is raised by an operator that the class does not define.
\<close>

datatype error =
  IndexError | ZeroDivisionError | ZeroModulus | InvalidDigit | NegativeShift | TypeError

text \<open>Sequencing of computations that may raise: the first exception wins.\<close>

definition bind_err :: "error + 'a \<Rightarrow> ('a \<Rightarrow> error + 'b) \<Rightarrow> error + 'b" where
  "bind_err m f = (case m of Inl e \<Rightarrow> Inl e | Inr x \<Rightarrow> f x)"

text \<open>
  A \<open>for\<close> loop over a list of indices: the body maps the loop state to a new state or
  raises, and an exception leaves the loop at once.
\<close>

fun for_loop :: "('i \<Rightarrow> 's \<Rightarrow> error + 's) \<Rightarrow> 'i list \<Rightarrow> 's \<Rightarrow> error + 's" where
  "for_loop body [] s = Inr s"
| "for_loop body (i # is) s =
     (case body i s of Inl e \<Rightarrow> Inl e | Inr s' \<Rightarrow> for_loop body is s')"

text \<open>The argument \<open>value\<close> of the constructor, by its run-time type.\<close>

datatype pyarg = PyInt int | PyStr string | PyList "int list" | PyOther

section \<open>The class \<open>BigInt\<close>\<close>

text \<open>
  The three attributes \<open>size\<close>, \<open>base\<close> and \<open>value\<close> of an instance. Digits are Python
  integers, least significant first. The size is a Python integer too: the constructor
  accepts a negative \<open>size\<close>, for which \<open>[0] * size\<close> is the empty list and
  \<open>range(size)\<close> is empty, so that a list repetition or a range over \<open>size\<close> runs over
  \<open>nat size\<close> elements.
\<close>

record BigInt =
  bi_size :: int
  bi_base :: int
  bi_value :: "int list"

subsection \<open>Construction\<close>

text \<open>
  \<open>from_int\<close>: for \<open>i\<close> in \<open>range(self.size)\<close>, \<open>self.value[i] = num % self.base\<close> and
  \<open>num //= self.base\<close>. The loop state is the digit list and \<open>num\<close>. Python's \<open>%\<close> and
  \<open>//\<close> on integers floor as \<open>mod\<close> and \<open>div\<close> on \<open>int\<close> do, and raise on a zero divisor.
\<close>

definition from_int_step :: "int \<Rightarrow> nat \<Rightarrow> int list \<times> int \<Rightarrow> error + int list \<times> int" where
  "from_int_step b i st =
     (case st of (v, num) \<Rightarrow>
        if b = 0 then Inl ZeroDivisionError
        else if i < length v then Inr (v[i := num mod b], num div b)
        else Inl IndexError)"

definition from_int :: "BigInt \<Rightarrow> int \<Rightarrow> error + BigInt" where
  "from_int self num =
     (case for_loop (from_int_step (bi_base self)) [0..<nat (bi_size self)] (bi_value self, num) of
        Inl e \<Rightarrow> Inl e
      | Inr (v, _) \<Rightarrow> Inr (self\<lparr>bi_value := v\<rparr>))"

text \<open>
  The builtin \<open>int(digit, base)\<close> on a one-character string: the base is 0 or lies in
  2..36, the character is a decimal digit or a letter (of either case) and its value is
  below the base (below ten for base 0); anything else is a \<open>ValueError\<close>. Characters
  are bytes here, so only ASCII digits and letters count as digits.
\<close>

definition char_digit :: "char \<Rightarrow> nat option" where
  "char_digit c =
     (let n = of_char c :: nat in
      if 48 \<le> n \<and> n \<le> 57 then Some (n - 48)
      else if 97 \<le> n \<and> n \<le> 122 then Some (n - 87)
      else if 65 \<le> n \<and> n \<le> 90 then Some (n - 55)
      else None)"

definition py_int :: "char \<Rightarrow> int \<Rightarrow> error + int" where
  "py_int c b =
     (case char_digit c of
        None \<Rightarrow> Inl InvalidDigit
      | Some d \<Rightarrow>
          if b = 0 then (if d < 10 then Inr (int d) else Inl InvalidDigit)
          else if 2 \<le> b \<and> b \<le> 36 then (if int d < b then Inr (int d) else Inl InvalidDigit)
          else Inl InvalidDigit)"

text \<open>The list comprehension of \<open>from_str\<close>, which converts character by character.\<close>

fun parse_digits :: "int \<Rightarrow> string \<Rightarrow> error + int list" where
  "parse_digits b [] = Inr []"
| "parse_digits b (c # cs) =
     (case py_int c b of
        Inl e \<Rightarrow> Inl e
      | Inr d \<Rightarrow> (case parse_digits b cs of Inl e \<Rightarrow> Inl e | Inr ds \<Rightarrow> Inr (d # ds)))"

definition from_str :: "BigInt \<Rightarrow> string \<Rightarrow> error + BigInt" where
  "from_str self num_str =
     (case parse_digits (bi_base self) (rev num_str) of
        Inl e \<Rightarrow> Inl e
      | Inr ds \<Rightarrow> Inr (self\<lparr>bi_value := ds\<rparr>))"

text \<open>
  \<open>__init__(self, value=0, base=10, size=2048)\<close>: the attributes are set, the digit list
  is \<open>[0] * size\<close>, and the argument is dispatched on its type; a list is copied as it is.
\<close>

definition bigint_init :: "pyarg \<Rightarrow> int \<Rightarrow> int \<Rightarrow> error + BigInt" where
  "bigint_init v b sz =
     (let self = \<lparr>bi_size = sz, bi_base = b, bi_value = replicate (nat sz) 0\<rparr> in
      case v of
        PyInt n \<Rightarrow> from_int self n
      | PyStr s \<Rightarrow> from_str self s
      | PyList l \<Rightarrow> Inr (self\<lparr>bi_value := l\<rparr>)
      | PyOther \<Rightarrow> Inr self)"

text \<open>\<open>BigInt()\<close>, the constructor with all its defaults, and \<open>BigInt(n)\<close>.\<close>

definition BigInt_default :: "error + BigInt" where
  "BigInt_default = bigint_init (PyInt 0) 10 2048"

definition BigInt_of :: "int \<Rightarrow> error + BigInt" where
  "BigInt_of n = bigint_init (PyInt n) 10 2048"

definition from_small_const :: "BigInt \<Rightarrow> int \<Rightarrow> error + BigInt" where
  "from_small_const self const = from_int self const"

subsection \<open>Comparison\<close>

definition bigint_eq :: "BigInt \<Rightarrow> BigInt \<Rightarrow> bool" where
  "bigint_eq self other \<longleftrightarrow> bi_value self = bi_value other"

definition bigint_ne :: "BigInt \<Rightarrow> BigInt \<Rightarrow> bool" where
  "bigint_ne self other \<longleftrightarrow> \<not> bigint_eq self other"

subsection \<open>Core arithmetic\<close>

text \<open>
  \<open>__add__\<close>: the result is a fresh \<open>BigInt()\<close>; for \<open>i\<close> in \<open>range(self.size)\<close> the digit
  sum with carry is split by \<open>% self.base\<close> and \<open>// self.base\<close>. The loop state is the
  digit list of the result and the carry. The right-hand side of the assignment is
  evaluated before the store, so a zero base raises before an index out of range does.
\<close>

definition add_step :: "BigInt \<Rightarrow> BigInt \<Rightarrow> nat \<Rightarrow> int list \<times> int \<Rightarrow> error + int list \<times> int" where
  "add_step self other i st =
     (case st of (rv, carry) \<Rightarrow>
        if i < length (bi_value self) \<and> i < length (bi_value other) then
          let temp_sum = bi_value self ! i + bi_value other ! i + carry in
          if bi_base self = 0 then Inl ZeroDivisionError
          else if i < length rv then
            Inr (rv[i := temp_sum mod bi_base self], temp_sum div bi_base self)
          else Inl IndexError
        else Inl IndexError)"

definition bigint_add :: "BigInt \<Rightarrow> BigInt \<Rightarrow> error + BigInt" where
  "bigint_add self other =
     bind_err BigInt_default (\<lambda>result.
       case for_loop (add_step self other) [0..<nat (bi_size self)] (bi_value result, 0) of
         Inl e \<Rightarrow> Inl e
       | Inr (rv, carry) \<Rightarrow> Inr (result\<lparr>bi_value := rv\<rparr>))"

text \<open>
  \<open>__sub__\<close>: digit difference with borrow; a negative difference gets \<open>self.base\<close> added
  and sets the borrow. The loop state is the digit list of the result and the borrow.
\<close>

definition sub_step :: "BigInt \<Rightarrow> BigInt \<Rightarrow> nat \<Rightarrow> int list \<times> int \<Rightarrow> error + int list \<times> int" where
  "sub_step self other i st =
     (case st of (rv, borrow) \<Rightarrow>
        if i < length (bi_value self) \<and> i < length (bi_value other) then
          let temp_diff = bi_value self ! i - bi_value other ! i - borrow;
              temp_diff' = (if temp_diff < 0 then temp_diff + bi_base self else temp_diff);
              borrow' = (if temp_diff < 0 then 1 else 0)
          in if i < length rv then Inr (rv[i := temp_diff'], borrow') else Inl IndexError
        else Inl IndexError)"

definition bigint_sub :: "BigInt \<Rightarrow> BigInt \<Rightarrow> error + BigInt" where
  "bigint_sub self other =
     bind_err BigInt_default (\<lambda>result.
       case for_loop (sub_step self other) [0..<nat (bi_size self)] (bi_value result, 0) of
         Inl e \<Rightarrow> Inl e
       | Inr (rv, borrow) \<Rightarrow> Inr (result\<lparr>bi_value := rv\<rparr>))"

text \<open>
  \<open>__mul__\<close>: for \<open>i\<close> in \<open>range(self.size)\<close> and \<open>j\<close> in \<open>range(self.size - i)\<close>, three
  updates of the result in place: the product is added at \<open>i + j\<close>, the quotient by the
  base is added at \<open>i + j + 1\<close>, and position \<open>i + j\<close> is reduced. An augmented assignment
  reads its target before it evaluates the right-hand side.
\<close>

definition mul_step :: "BigInt \<Rightarrow> BigInt \<Rightarrow> nat \<Rightarrow> nat \<Rightarrow> int list \<Rightarrow> error + int list" where
  "mul_step self other i j rv =
     (if i + j < length rv \<and> i < length (bi_value self) \<and> j < length (bi_value other) then
        let rv1 = rv[i + j := rv ! (i + j) + bi_value self ! i * bi_value other ! j] in
        if i + j + 1 < length rv1 then
          if bi_base self = 0 then Inl ZeroDivisionError
          else
            let rv2 = rv1[i + j + 1 := rv1 ! (i + j + 1) + rv1 ! (i + j) div bi_base self];
                rv3 = rv2[i + j := rv2 ! (i + j) mod bi_base self]
            in Inr rv3
        else Inl IndexError
      else Inl IndexError)"

definition mul_row :: "BigInt \<Rightarrow> BigInt \<Rightarrow> nat \<Rightarrow> int list \<Rightarrow> error + int list" where
  "mul_row self other i rv =
     for_loop (mul_step self other i) [0..<nat (bi_size self - int i)] rv"

definition bigint_mul :: "BigInt \<Rightarrow> BigInt \<Rightarrow> error + BigInt" where
  "bigint_mul self other =
     bind_err BigInt_default (\<lambda>result.
       case for_loop (mul_row self other) [0..<nat (bi_size self)] (bi_value result) of
         Inl e \<Rightarrow> Inl e
       | Inr rv \<Rightarrow> Inr (result\<lparr>bi_value := rv\<rparr>))"

text \<open>
  \<open>__rshift__\<close>: \<open>BigInt(value=self.value[shift:])\<close>. A slice never raises; a negative
  start counts from the end of the list.
\<close>

definition py_slice_from :: "int list \<Rightarrow> int \<Rightarrow> int list" where
  "py_slice_from xs k =
     (if 0 \<le> k then drop (nat k) xs else drop (length xs - nat (- k)) xs)"

definition bigint_rshift :: "BigInt \<Rightarrow> int \<Rightarrow> error + BigInt" where
  "bigint_rshift self shift = bigint_init (PyList (py_slice_from (bi_value self) shift)) 10 2048"

subsection \<open>Reduction\<close>

text \<open>
  \<open>__mod__\<close>. The modulus is compared with \<open>BigInt()\<close> and \<open>BigInt(0)\<close>; a zero \<open>self\<close>
  (equal to \<open>BigInt()\<close>, or with no nonzero digit) gives \<open>BigInt()\<close>. Otherwise a copy of
  \<open>self\<close> is reduced for \<open>j\<close> from \<open>self.size - 1\<close> down to 0: position \<open>j\<close> is taken modulo
  \<open>mod.value[j]\<close>, and for \<open>j > 0\<close> a borrow is subtracted at \<open>j - 1\<close>. Only
  \<open>ZeroDivisionError\<close> is caught, and raised again as the zero-modulus \<open>ValueError\<close>.
\<close>

definition mod_step :: "BigInt \<Rightarrow> BigInt \<Rightarrow> nat \<Rightarrow> int list \<Rightarrow> error + int list" where
  "mod_step self m j rv =
     (if j < length rv \<and> j < length (bi_value m) then
        if bi_value m ! j = 0 then Inl ZeroDivisionError
        else
          let rv1 = rv[j := rv ! j mod bi_value m ! j] in
          if j > 0 then
            let borrow = (rv1 ! (j - 1) + rv1 ! j * bi_base self) div bi_value m ! j
            in Inr (rv1[j - 1 := rv1 ! (j - 1) - borrow])
          else Inr rv1
      else Inl IndexError)"

definition bigint_mod :: "BigInt \<Rightarrow> BigInt \<Rightarrow> error + BigInt" where
  "bigint_mod self m =
     bind_err BigInt_default (\<lambda>z0.
     bind_err (BigInt_of 0) (\<lambda>z1.
       if bigint_eq m z0 \<or> bigint_eq m z1 then Inl ZeroModulus
       else
         bind_err BigInt_default (\<lambda>z2.
           if bigint_eq self z2 then BigInt_default
           else if list_all (\<lambda>digit. digit = 0) (bi_value self) then BigInt_default
           else
             bind_err (bigint_init (PyList (bi_value self)) 10 2048) (\<lambda>result.
               case for_loop (mod_step self m) (rev [0..<nat (bi_size self)]) (bi_value result) of
                 Inl e \<Rightarrow> (if e = ZeroDivisionError then Inl ZeroModulus else Inl e)
               | Inr rv \<Rightarrow> Inr (result\<lparr>bi_value := rv\<rparr>)))))"

text \<open>
  \<open>gcd\<close>: \<open>other\<close> equal to \<open>BigInt()\<close> returns \<open>self\<close>; otherwise the loop
  \<open>while b != BigInt(): a, b = b, a % b\<close> runs and \<open>a\<close> is returned. The loop is a partial
  function: \<open>None\<close> stands for a loop that never ends.
\<close>

partial_function (option) gcd_loop :: "BigInt \<Rightarrow> BigInt \<Rightarrow> (error + BigInt) option" where
  "gcd_loop a b =
     (case BigInt_default of
        Inl e \<Rightarrow> Some (Inl e)
      | Inr z \<Rightarrow>
          if bigint_ne b z then
            (case bigint_mod a b of
               Inl e \<Rightarrow> Some (Inl e)
             | Inr r \<Rightarrow> gcd_loop b r)
          else Some (Inr a))"

definition bigint_gcd :: "BigInt \<Rightarrow> BigInt \<Rightarrow> (error + BigInt) option" where
  "bigint_gcd self other =
     (case BigInt_default of
        Inl e \<Rightarrow> Some (Inl e)
      | Inr z \<Rightarrow> if bigint_eq other z then Some (Inr self) else gcd_loop self other)"

text \<open>
  \<open>lcm\<close>: a zero gcd gives \<open>BigInt()\<close>; otherwise \<open>(self * other) // gcd_ab\<close> is evaluated.
  The class defines no \<open>__floordiv__\<close>, so once the product is there \<open>//\<close> raises
  \<open>TypeError\<close>.
\<close>

definition bigint_floordiv :: "BigInt \<Rightarrow> BigInt \<Rightarrow> error + BigInt" where
  "bigint_floordiv self other = Inl TypeError"

definition bigint_lcm :: "BigInt \<Rightarrow> BigInt \<Rightarrow> (error + BigInt) option" where
  "bigint_lcm self other =
     (case bigint_gcd self other of
        None \<Rightarrow> None
      | Some (Inl e) \<Rightarrow> Some (Inl e)
      | Some (Inr gcd_ab) \<Rightarrow>
          Some (bind_err BigInt_default (\<lambda>z.
            if bigint_eq gcd_ab z then BigInt_default
            else bind_err (bigint_mul self other) (\<lambda>p. bigint_floordiv p gcd_ab))))"

subsection \<open>Modular arithmetic\<close>

definition mod_add :: "BigInt \<Rightarrow> BigInt \<Rightarrow> BigInt \<Rightarrow> error + BigInt" where
  "mod_add self other m = bind_err (bigint_add self other) (\<lambda>result. bigint_mod result m)"

definition mod_sub :: "BigInt \<Rightarrow> BigInt \<Rightarrow> BigInt \<Rightarrow> error + BigInt" where
  "mod_sub self other m = bind_err (bigint_sub self other) (\<lambda>result. bigint_mod result m)"

text \<open>
  \<open>mod_mul\<close> and \<open>mod_square\<close>: \<open>mu\<close> is \<open>BigInt((1 << (2 * self.size)) // mod.value[0])\<close>,
  where the shift is evaluated first and the division is not inside any \<open>try\<close>; then \<open>q1\<close>, \<open>q2\<close> and the reduced difference
  are computed with the operators above, left to right.
\<close>

definition barrett_mu :: "BigInt \<Rightarrow> BigInt \<Rightarrow> error + BigInt" where
  "barrett_mu self m =
     (if 2 * bi_size self < 0 then Inl NegativeShift
      else
        (case bi_value m of
           [] \<Rightarrow> Inl IndexError
         | d # _ \<Rightarrow>
             if d = 0 then Inl ZeroDivisionError
             else BigInt_of (2 ^ nat (2 * bi_size self) div d)))"

definition mod_mul :: "BigInt \<Rightarrow> BigInt \<Rightarrow> BigInt \<Rightarrow> error + BigInt" where
  "mod_mul self other m =
     bind_err (barrett_mu self m) (\<lambda>mu.
     bind_err (bigint_mul self other) (\<lambda>p.
     bind_err (bigint_rshift p (2 * bi_size self)) (\<lambda>q1.
     bind_err (bigint_mul q1 m) (\<lambda>q1m.
     bind_err (bigint_mul mu q1m) (\<lambda>q2.
     bind_err (bigint_mul self other) (\<lambda>p'.
     bind_err (bigint_mul q2 m) (\<lambda>q2m.
     bind_err (bigint_sub p' q2m) (\<lambda>d.
       bigint_mod d m))))))))"

definition mod_square :: "BigInt \<Rightarrow> BigInt \<Rightarrow> error + BigInt" where
  "mod_square self m =
     bind_err (barrett_mu self m) (\<lambda>mu.
     bind_err (bigint_mul self self) (\<lambda>p.
     bind_err (bigint_rshift p (2 * bi_size self)) (\<lambda>q1.
     bind_err (bigint_mul q1 m) (\<lambda>q1m.
     bind_err (bigint_mul mu q1m) (\<lambda>q2.
     bind_err (bigint_mul self self) (\<lambda>p'.
     bind_err (bigint_mul q2 m) (\<lambda>q2m.
     bind_err (bigint_sub p' q2m) (\<lambda>d.
       bigint_mod d m))))))))"

text \<open>
  \<open>mod_pow\<close>: \<open>result = BigInt(1)\<close> and \<open>base_power = self % mod\<close> are computed before the
  loop \<open>while exponent > 0\<close>, which halves the native exponent in every round.
\<close>

function mod_pow_loop :: "BigInt \<Rightarrow> int \<Rightarrow> BigInt \<Rightarrow> BigInt \<Rightarrow> error + BigInt" where
  "mod_pow_loop m exponent result base_power =
     (if exponent > 0 then
        (case (if exponent mod 2 = 1
               then bind_err (bigint_mul result base_power) (\<lambda>p. bigint_mod p m)
               else Inr result) of
           Inl e \<Rightarrow> Inl e
         | Inr result' \<Rightarrow>
             (case bind_err (bigint_mul base_power base_power) (\<lambda>sq. bigint_mod sq m) of
                Inl e \<Rightarrow> Inl e
              | Inr base_power' \<Rightarrow> mod_pow_loop m (exponent div 2) result' base_power'))
      else Inr result)"
  by pat_completeness auto
termination
  by (relation "measure (\<lambda>(m, exponent, result, base_power). nat exponent)") auto

definition mod_pow :: "BigInt \<Rightarrow> int \<Rightarrow> BigInt \<Rightarrow> error + BigInt" where
  "mod_pow self exponent m =
     bind_err (BigInt_of 1) (\<lambda>result.
     bind_err (bigint_mod self m) (\<lambda>base_power.
       mod_pow_loop m exponent result base_power))"

section \<open>Notions used by the properties\<close>

text \<open>The value that \<open>BigInt()\<close> evaluates to: 2048 zero digits in base 10.\<close>

definition Zero :: BigInt where
  "Zero = \<lparr>bi_size = 2048, bi_base = 10, bi_value = replicate 2048 0\<rparr>"

text \<open>The value that \<open>BigInt(1)\<close> evaluates to.\<close>

definition One :: BigInt where
  "One = \<lparr>bi_size = 2048, bi_base = 10, bi_value = 1 # replicate 2047 0\<rparr>"

text \<open>
  The value of the default capacity and base whose low digits are \<open>ds\<close> and whose other
  digits are zero.
\<close>

definition padded :: "int list \<Rightarrow> BigInt" where
  "padded ds = \<lparr>bi_size = 2048, bi_base = 10, bi_value = ds @ replicate (2048 - length ds) 0\<rparr>"

text \<open>A digit list without a nonzero digit, as the \<open>for\<close>/\<open>else\<close> scan of \<open>__mod__\<close> tests it.\<close>

definition all_zero :: "int list \<Rightarrow> bool" where
  "all_zero ds = list_all (\<lambda>digit. digit = 0) ds"

text \<open>The digit list has exactly \<open>size\<close> elements.\<close>

definition size_ok :: "BigInt \<Rightarrow> bool" where
  "size_ok a \<longleftrightarrow> int (length (bi_value a)) = bi_size a"

text \<open>Every digit lies in \<open>[0, b)\<close>.\<close>

definition digits_in :: "int \<Rightarrow> int list \<Rightarrow> bool" where
  "digits_in b ds = list_all (\<lambda>d. 0 \<le> d \<and> d < b) ds"

text \<open>The number that a little-endian digit list encodes in base \<open>b\<close>.\<close>

primrec digits_val :: "int \<Rightarrow> int list \<Rightarrow> int" where
  "digits_val b [] = 0"
| "digits_val b (d # ds) = d + b * digits_val b ds"

text \<open>
  A finite run of the Euclidean loop of \<open>gcd\<close> from the pair \<open>(a, b)\<close>, with the number of
  calls of \<open>__mod__\<close> that it makes: it stops when \<open>b\<close> equals \<open>BigInt()\<close> and yields
  \<open>a\<close>, it replaces \<open>(a, b)\<close> by \<open>(b, a % b)\<close>, or it ends with the exception of a failing
  \<open>a % b\<close>.
\<close>

inductive euclid_run :: "nat \<Rightarrow> BigInt \<Rightarrow> BigInt \<Rightarrow> error + BigInt \<Rightarrow> bool" where
  euclid_stop: "bigint_eq b Zero \<Longrightarrow> euclid_run 0 a b (Inr a)"
| euclid_abort: "\<not> bigint_eq b Zero \<Longrightarrow> bigint_mod a b = Inl e \<Longrightarrow> euclid_run 1 a b (Inl e)"
| euclid_iter: "\<not> bigint_eq b Zero \<Longrightarrow> bigint_mod a b = Inr r \<Longrightarrow> euclid_run n b r res
                \<Longrightarrow> euclid_run (Suc n) a b res"

text \<open>
  Two kinds of states of the Euclidean loop that operands of a capacity other than 2048
  lead to. In a mixed pair \<open>a\<close> is an operand and \<open>b\<close> a remainder that kept the length of
  an operand; in a stray pair both are such remainders. A remainder has \<open>size\<close> 2048, and
  one whose length differs is never equal to \<open>BigInt()\<close>.
\<close>

definition mixed_pair :: "BigInt \<Rightarrow> BigInt \<Rightarrow> bool" where
  "mixed_pair a b \<longleftrightarrow>
     size_ok a \<and> \<not> all_zero (bi_value a) \<and> bi_size b = 2048
     \<and> length (bi_value b) \<noteq> 2048 \<and> length (bi_value b) \<le> length (bi_value a)"

definition stray_pair :: "BigInt \<Rightarrow> BigInt \<Rightarrow> bool" where
  "stray_pair a b \<longleftrightarrow>
     \<not> all_zero (bi_value a) \<and> bi_size a = 2048 \<and> length (bi_value a) \<noteq> 2048
     \<and> bi_size b = 2048 \<and> length (bi_value b) \<noteq> 2048"

section \<open>Loops and exceptions\<close>

lemma bind_err_Inl [simp]: "bind_err (Inl e) f = Inl e"
  by (simp add: bind_err_def)

lemma bind_err_Inr [simp]: "bind_err (Inr x) f = f x"
  by (simp add: bind_err_def)

lemma bind_err_eq_Inr:
  "bind_err m f = Inr y \<longleftrightarrow> (\<exists>x. m = Inr x \<and> f x = Inr y)"
  by (cases m) simp_all

lemma for_loop_append:
  "for_loop body (xs @ ys) s =
     (case for_loop body xs s of Inl e \<Rightarrow> Inl e | Inr s' \<Rightarrow> for_loop body ys s')"
  by (induction xs arbitrary: s) (auto split: sum.splits)

lemma for_loop_invariant:
  assumes "for_loop body xs s = Inr s'" and "I s"
    and "\<And>x t t'. I t \<Longrightarrow> body x t = Inr t' \<Longrightarrow> I t'"
  shows "I s'"
  using assms(1,2)
proof (induction xs arbitrary: s)
  case Nil
  then show ?case by simp
next
  case (Cons x xs)
  from Cons.prems(1) obtain t where t: "body x s = Inr t" and rest: "for_loop body xs t = Inr s'"
    by (auto split: sum.splits)
  have "I t" using assms(3)[OF Cons.prems(2) t] .
  with rest Cons.IH show ?case by blast
qed

lemma for_loop_error_kind:
  assumes "for_loop body xs s = Inl e"
    and "\<And>x t e'. body x t = Inl e' \<Longrightarrow> e' = E"
  shows "e = E"
  using assms(1)
proof (induction xs arbitrary: s)
  case Nil
  then show ?case by simp
next
  case (Cons x xs)
  show ?case
  proof (cases "body x s")
    case (Inl e')
    with Cons.prems have "e' = e" by simp
    with assms(2)[OF Inl] show ?thesis by simp
  next
    case (Inr t)
    with Cons.prems have "for_loop body xs t = Inl e" by simp
    then show ?thesis by (rule Cons.IH)
  qed
qed

lemma for_loop_raises:
  assumes "x \<in> set xs" and "I s"
    and "\<And>y t t'. I t \<Longrightarrow> body y t = Inr t' \<Longrightarrow> I t'"
    and "\<And>t. I t \<Longrightarrow> \<exists>e. body x t = Inl e"
  shows "\<exists>e. for_loop body xs s = Inl e"
  using assms(1,2)
proof (induction xs arbitrary: s)
  case Nil
  then show ?case by simp
next
  case (Cons y ys)
  show ?case
  proof (cases "body y s")
    case (Inl e)
    then show ?thesis by simp
  next
    case (Inr t)
    have It: "I t" using assms(3)[OF Cons.prems(2) Inr] .
    have "x \<noteq> y"
    proof
      assume "x = y"
      with assms(4)[OF Cons.prems(2)] Inr show False by simp
    qed
    with Cons.prems(1) have "x \<in> set ys" by simp
    from Cons.IH[OF this It] have "\<exists>e. for_loop body ys t = Inl e" .
    with Inr show ?thesis by simp
  qed
qed

section \<open>Construction\<close>

lemma from_int_loop_closed:
  assumes "0 < b" and "n \<le> length v"
  shows "for_loop (from_int_step b) [0..<n] (v, num) =
           Inr (map (\<lambda>i. num div b ^ i mod b) [0..<n] @ drop n v, num div b ^ n)"
  using assms(2)
proof (induction n)
  case 0
  then show ?case by simp
next
  case (Suc n)
  have n: "n < length v" using Suc.prems by simp
  have upd: "(map (\<lambda>i. num div b ^ i mod b) [0..<n] @ drop n v)[n := x]
              = map (\<lambda>i. num div b ^ i mod b) [0..<n] @ x # drop (Suc n) v" for x
    using n by (simp add: list_update_append Cons_nth_drop_Suc[symmetric])
  have dv: "num div b ^ n div b = num div (b ^ n * b)"
    using assms(1) by (simp add: zdiv_zmult2_eq)
  show ?case
    using Suc.IH n assms(1)
    by (simp add: for_loop_append from_int_step_def upd dv mult.commute)
qed

lemma bigint_init_int:
  assumes "0 < b"
  shows "bigint_init (PyInt n) b sz =
           Inr \<lparr>bi_size = sz, bi_base = b,
                bi_value = map (\<lambda>i. n div b ^ i mod b) [0..<nat sz]\<rparr>"
  using from_int_loop_closed[OF assms, of "nat sz" "replicate (nat sz) 0" n]
  by (simp add: bigint_init_def from_int_def)

lemma bigint_init_list [simp]:
  "bigint_init (PyList l) b sz = Inr \<lparr>bi_size = sz, bi_base = b, bi_value = l\<rparr>"
  by (simp add: bigint_init_def)

lemma from_int_step_length:
  "from_int_step b i (v, num) = Inr (v', num') \<Longrightarrow> length v' = length v"
  by (auto simp: from_int_step_def split: if_splits)

lemma bigint_init_int_size:
  assumes "bigint_init (PyInt n) b sz = Inr r"
  shows "bi_size r = sz \<and> bi_base r = b \<and> length (bi_value r) = nat sz"
proof -
  from assms obtain v num' where
    loop: "for_loop (from_int_step b) [0..<nat sz] (replicate (nat sz) 0, n) = Inr (v, num')"
    and r: "r = \<lparr>bi_size = sz, bi_base = b, bi_value = v\<rparr>"
    by (auto simp: bigint_init_def from_int_def split: sum.splits)
  have "length (fst (v, num')) = nat sz"
  proof (rule for_loop_invariant[OF loop, where I = "\<lambda>st. length (fst st) = nat sz"])
    show "length (fst (replicate (nat sz) (0::int), n)) = nat sz" by simp
  next
    fix x t t'
    assume "length (fst t) = nat sz" and "from_int_step b x t = Inr t'"
    then show "length (fst t') = nat sz"
      by (cases t; cases t') (auto dest: from_int_step_length)
  qed
  with r show ?thesis by simp
qed

lemma small_digit_zero:
  assumes "0 \<le> n" and "n < b ^ k" and "k \<le> i" and "0 < (b::int)"
  shows "n div b ^ i = 0"
proof -
  have "b ^ k \<le> b ^ i" using assms(3,4) by (simp add: power_increasing)
  with assms(2) have "n < b ^ i" by simp
  with assms(1) show ?thesis by (simp add: div_pos_pos_trivial)
qed

lemma map_const_replicate:
  assumes "\<And>x. x \<in> set xs \<Longrightarrow> f x = c"
  shows "map f xs = replicate (length xs) c"
  using assms by (induction xs) simp_all

lemma BigInt_of_eq:
  "BigInt_of n = Inr \<lparr>bi_size = 2048, bi_base = 10,
                      bi_value = map (\<lambda>i. n div 10 ^ i mod 10) [0..<2048]\<rparr>"
  using bigint_init_int[of 10 n 2048] by (simp add: BigInt_of_def)

lemma BigInt_default_Zero [simp]: "BigInt_default = Inr Zero"
proof -
  have "map (\<lambda>i. (0::int) div 10 ^ i mod 10) [0..<2048] = replicate 2048 0"
    using map_const_replicate[of "[0..<2048]" "\<lambda>i. (0::int) div 10 ^ i mod 10" 0] by simp
  then show ?thesis
    using bigint_init_int[of 10 0 2048] by (simp add: BigInt_default_def Zero_def)
qed

lemma BigInt_of_0 [simp]: "BigInt_of 0 = Inr Zero"
  using BigInt_default_Zero unfolding BigInt_default_def BigInt_of_def .

lemma BigInt_of_1 [simp]: "BigInt_of 1 = Inr One"
proof -
  have "map (\<lambda>i. (1::int) div 10 ^ i mod 10) [Suc 0..<2048] = replicate (length [Suc 0..<2048]) 0"
  proof (rule map_const_replicate)
    fix x assume "x \<in> set [Suc 0..<2048]"
    then have "1 \<le> x" by simp
    then have "(1::int) div 10 ^ x = 0"
      using small_digit_zero[of 1 10 1 x] by simp
    then show "(1::int) div 10 ^ x mod 10 = 0" by simp
  qed
  then have "map (\<lambda>i. (1::int) div 10 ^ i mod 10) [0..<2048] = 1 # replicate 2047 0"
    by (simp add: upt_conv_Cons[of 0 2048])
  then show ?thesis by (simp add: BigInt_of_eq One_def)
qed

lemma Zero_fields [simp]:
  "bi_size Zero = 2048" "bi_base Zero = 10" "bi_value Zero = replicate 2048 0"
  by (simp_all add: Zero_def)

lemma bigint_eq_Zero: "bigint_eq a Zero \<longleftrightarrow> bi_value a = replicate 2048 0"
  by (simp add: bigint_eq_def)

section \<open>Digit lists as numbers\<close>

lemma for_loop_snoc:
  "for_loop body (xs @ [x]) s =
     (case for_loop body xs s of Inl e \<Rightarrow> Inl e | Inr t \<Rightarrow> body x t)"
  by (simp add: for_loop_append split: sum.splits)

lemma digits_val_append:
  "digits_val b (xs @ ys) = digits_val b xs + b ^ length xs * digits_val b ys"
  by (induction xs) (simp_all add: algebra_simps)

lemma digits_val_replicate_0 [simp]: "digits_val b (replicate n 0) = 0"
  by (induction n) simp_all

lemma digits_val_take_Suc:
  assumes "n < length xs"
  shows "digits_val b (take (Suc n) xs) = digits_val b (take n xs) + xs ! n * b ^ n"
  using assms by (simp add: take_Suc_conv_app_nth digits_val_append)

lemma digits_in_nth: "digits_in b ds \<longleftrightarrow> (\<forall>i<length ds. 0 \<le> ds ! i \<and> ds ! i < b)"
  by (simp add: digits_in_def list_all_length)

lemma digits_val_bounds:
  assumes "digits_in b ds"
  shows "0 \<le> digits_val b ds \<and> digits_val b ds < b ^ length ds"
  using assms
proof (induction ds)
  case Nil
  then show ?case by simp
next
  case (Cons d ds)
  then have d: "0 \<le> d" "d < b" and IH: "0 \<le> digits_val b ds" "digits_val b ds < b ^ length ds"
    by (simp_all add: digits_in_def)
  have b: "0 < b" using d by simp
  have "digits_val b ds + 1 \<le> b ^ length ds" using IH(2) by simp
  then have "b * (digits_val b ds + 1) \<le> b * b ^ length ds"
    using b by (simp only: mult_le_cancel_left_pos)
  then have "d + b * digits_val b ds < b * b ^ length ds"
    using d by (simp add: algebra_simps)
  moreover have "0 \<le> d + b * digits_val b ds" using d b IH(1) by simp
  ultimately show ?case by simp
qed

lemma mod_unique_low:
  assumes "0 \<le> (r::int)" and "r < m" and "r + c * m = x"
  shows "r = x mod m"
proof -
  have "x mod m = r mod m" using assms(3)[symmetric] by simp
  also have "\<dots> = r" using assms(1,2) by (simp add: mod_pos_pos_trivial)
  finally show ?thesis by simp
qed

lemma take_all_zero_tail:
  assumes "length rv = m" and "n \<le> m" and "\<forall>i. n \<le> i \<and> i < m \<longrightarrow> rv ! i = (0::int)"
  shows "rv = take n rv @ replicate (m - n) 0"
proof -
  have "drop n rv = replicate (m - n) 0"
    using assms by (intro nth_equalityI) simp_all
  then show ?thesis by (metis append_take_drop_id)
qed

section \<open>Addition\<close>

lemma add_loop_inv:
  assumes base: "0 < bi_base a"
    and n: "n \<le> length (bi_value a)" "n \<le> length (bi_value b)" "n \<le> length rv0"
  shows "\<exists>rv carry. for_loop (add_step a b) [0..<n] (rv0, 0) = Inr (rv, carry)
           \<and> length rv = length rv0
           \<and> (\<forall>i<n. 0 \<le> rv ! i \<and> rv ! i < bi_base a)
           \<and> (\<forall>i. n \<le> i \<longrightarrow> rv ! i = rv0 ! i)
           \<and> digits_val (bi_base a) (take n rv) + carry * bi_base a ^ n
               = digits_val (bi_base a) (take n (bi_value a))
                 + digits_val (bi_base a) (take n (bi_value b))"
  using n
proof (induction n)
  case 0
  then show ?case by simp
next
  case (Suc n)
  let ?B = "bi_base a"
  from Suc obtain rv carry where
    loop: "for_loop (add_step a b) [0..<n] (rv0, 0) = Inr (rv, carry)"
    and len: "length rv = length rv0"
    and dig: "\<forall>i<n. 0 \<le> rv ! i \<and> rv ! i < ?B"
    and rest: "\<forall>i. n \<le> i \<longrightarrow> rv ! i = rv0 ! i"
    and val: "digits_val ?B (take n rv) + carry * ?B ^ n
               = digits_val ?B (take n (bi_value a)) + digits_val ?B (take n (bi_value b))"
    by auto
  have lt: "n < length (bi_value a)" "n < length (bi_value b)" "n < length rv"
    using Suc.prems len by simp_all
  define t where "t = bi_value a ! n + bi_value b ! n + carry"
  define rv' where "rv' = rv[n := t mod ?B]"
  have step: "for_loop (add_step a b) [0..<Suc n] (rv0, 0) = Inr (rv', t div ?B)"
    using loop lt base
    by (simp add: for_loop_snoc add_step_def Let_def t_def rv'_def)
  have len': "length rv' = length rv0" using len by (simp add: rv'_def)
  have dig': "\<forall>i<Suc n. 0 \<le> rv' ! i \<and> rv' ! i < ?B"
  proof (intro allI impI)
    fix i assume "i < Suc n"
    show "0 \<le> rv' ! i \<and> rv' ! i < ?B"
    proof (cases "i = n")
      case True
      then show ?thesis using lt base by (simp add: rv'_def)
    next
      case False
      with \<open>i < Suc n\<close> have "i < n" by simp
      with dig False show ?thesis by (simp add: rv'_def)
    qed
  qed
  have rest': "\<forall>i. Suc n \<le> i \<longrightarrow> rv' ! i = rv0 ! i"
    using rest by (simp add: rv'_def)
  have tk: "take n rv' = take n rv" by (simp add: rv'_def)
  have nth: "rv' ! n = t mod ?B" using lt by (simp add: rv'_def)
  have regroup: "x * P + y * (B * P) = (x + y * B) * P" for x y P B :: int
    by (simp add: algebra_simps)
  have "digits_val ?B (take (Suc n) rv') + t div ?B * ?B ^ Suc n
          = digits_val ?B (take n rv) + (t mod ?B * ?B ^ n + t div ?B * (?B * ?B ^ n))"
    using lt len' len by (simp add: digits_val_take_Suc tk nth)
  also have "\<dots> = digits_val ?B (take n rv) + t * ?B ^ n"
    by (simp only: regroup) simp
  also have "digits_val ?B (take n rv) + t * ?B ^ n
          = (digits_val ?B (take n rv) + carry * ?B ^ n)
            + (bi_value a ! n + bi_value b ! n) * ?B ^ n"
    by (simp add: t_def algebra_simps)
  also have "\<dots> = digits_val ?B (take (Suc n) (bi_value a))
                   + digits_val ?B (take (Suc n) (bi_value b))"
    using lt val by (simp add: digits_val_take_Suc algebra_simps)
  finally have val': "digits_val ?B (take (Suc n) rv') + t div ?B * ?B ^ Suc n
       = digits_val ?B (take (Suc n) (bi_value a)) + digits_val ?B (take (Suc n) (bi_value b))" .
  from step len' dig' rest' val' show ?case by blast
qed

lemma add_step_length:
  "add_step a b i st = Inr st' \<Longrightarrow> length (fst st') = length (fst st)"
  by (cases st) (auto simp: add_step_def Let_def split: if_splits)

lemma bigint_add_shape:
  assumes "bigint_add a b = Inr r"
  shows "bi_size r = 2048 \<and> bi_base r = 10 \<and> length (bi_value r) = 2048"
proof -
  from assms obtain rv carry where
    loop: "for_loop (add_step a b) [0..<nat (bi_size a)] (replicate 2048 0, 0) = Inr (rv, carry)"
    and r: "r = Zero\<lparr>bi_value := rv\<rparr>"
    by (auto simp: bigint_add_def split: sum.splits)
  have "length (fst (rv, carry)) = 2048"
    by (rule for_loop_invariant[OF loop, where I = "\<lambda>st. length (fst st) = 2048"])
       (simp_all add: add_step_length)
  with r show ?thesis by simp
qed

lemma bigint_add_value:
  assumes base: "0 < bi_base a" and sz: "bi_size a \<le> 2048"
    and la: "int (length (bi_value a)) = bi_size a"
    and lb: "int (length (bi_value b)) = bi_size a"
  shows "\<exists>r. bigint_add a b = Inr r
           \<and> digits_in (bi_base a) (bi_value r)
           \<and> digits_val (bi_base a) (bi_value r)
               = (digits_val (bi_base a) (bi_value a) + digits_val (bi_base a) (bi_value b))
                 mod bi_base a ^ nat (bi_size a)"
proof -
  let ?B = "bi_base a" and ?n = "nat (bi_size a)"
  have la': "length (bi_value a) = ?n" and lb': "length (bi_value b) = ?n" and sz': "?n \<le> 2048"
    using la lb sz by linarith+
  from add_loop_inv[OF base, of ?n b "replicate 2048 0"] la' lb' sz'
  obtain rv carry where
    loop: "for_loop (add_step a b) [0..<?n] (replicate 2048 0, 0) = Inr (rv, carry)"
    and len: "length rv = 2048"
    and dig: "\<forall>i<?n. 0 \<le> rv ! i \<and> rv ! i < ?B"
    and rest: "\<forall>i. ?n \<le> i \<longrightarrow> rv ! i = replicate 2048 (0::int) ! i"
    and val: "digits_val ?B (take ?n rv) + carry * ?B ^ ?n
               = digits_val ?B (bi_value a) + digits_val ?B (bi_value b)"
    by auto
  have res: "bigint_add a b = Inr (Zero\<lparr>bi_value := rv\<rparr>)"
    using loop by (simp add: bigint_add_def)
  have tail: "\<forall>i. ?n \<le> i \<and> i < 2048 \<longrightarrow> rv ! i = 0" using rest by simp
  have all: "digits_in ?B rv"
    unfolding digits_in_nth
  proof (intro allI impI)
    fix i assume "i < length rv"
    show "0 \<le> rv ! i \<and> rv ! i < ?B"
    proof (cases "i < ?n")
      case True
      with dig show ?thesis by simp
    next
      case False
      with tail \<open>i < length rv\<close> len base show ?thesis by simp
    qed
  qed
  have split: "rv = take ?n rv @ replicate (2048 - ?n) 0"
    using take_all_zero_tail[OF len sz' tail] .
  have low: "digits_in ?B (take ?n rv)"
    using dig len sz' by (simp add: digits_in_nth)
  have bounds: "0 \<le> digits_val ?B (take ?n rv)" "digits_val ?B (take ?n rv) < ?B ^ ?n"
    using digits_val_bounds[OF low] len sz' by simp_all
  have "digits_val ?B rv = digits_val ?B (take ?n rv)"
    by (subst split) (simp add: digits_val_append)
  also have "\<dots> = (digits_val ?B (bi_value a) + digits_val ?B (bi_value b)) mod ?B ^ ?n"
    using mod_unique_low[OF bounds val] .
  finally show ?thesis using res all by simp
qed

lemma bigint_add_overflow:
  assumes base: "bi_base a \<noteq> 0" and sz: "2048 < bi_size a"
  shows "bigint_add a b = Inl IndexError"
proof -
  have "\<exists>e. for_loop (add_step a b) [0..<nat (bi_size a)] (replicate 2048 0, 0) = Inl e"
  proof (rule for_loop_raises[where x = 2048 and I = "\<lambda>st. length (fst st) = 2048"])
    show "2048 \<in> set [0..<nat (bi_size a)]" using sz by simp
    show "length (fst (replicate 2048 (0::int), 0::int)) = 2048" by simp
    show "\<And>y t t'. length (fst t) = 2048 \<Longrightarrow> add_step a b y t = Inr t' \<Longrightarrow> length (fst t') = 2048"
      by (simp add: add_step_length)
    show "\<And>t. length (fst t) = 2048 \<Longrightarrow> \<exists>e. add_step a b 2048 t = Inl e"
      by (auto simp: add_step_def Let_def split: prod.splits)
  qed
  then obtain e where e: "for_loop (add_step a b) [0..<nat (bi_size a)] (replicate 2048 0, 0) = Inl e" ..
  have "e = IndexError"
    by (rule for_loop_error_kind[OF e])
       (use base in \<open>auto simp: add_step_def Let_def split: prod.splits if_splits\<close>)
  with e show ?thesis by (simp add: bigint_add_def)
qed

lemma add_zero_loop:
  assumes n: "n \<le> length (bi_value a)" "n \<le> length (bi_value z)" "n \<le> length rv0"
    and dig: "\<forall>i<n. 0 \<le> bi_value a ! i \<and> bi_value a ! i < bi_base a"
    and zero: "\<forall>i<n. bi_value z ! i = 0"
  shows "\<exists>rv. for_loop (add_step a z) [0..<n] (rv0, 0) = Inr (rv, 0)
           \<and> length rv = length rv0
           \<and> (\<forall>i<n. rv ! i = bi_value a ! i)
           \<and> (\<forall>i. n \<le> i \<longrightarrow> rv ! i = rv0 ! i)"
  using n dig zero
proof (induction n)
  case 0
  then show ?case by simp
next
  case (Suc n)
  from Suc obtain rv where
    loop: "for_loop (add_step a z) [0..<n] (rv0, 0) = Inr (rv, 0)"
    and len: "length rv = length rv0"
    and same: "\<forall>i<n. rv ! i = bi_value a ! i"
    and rest: "\<forall>i. n \<le> i \<longrightarrow> rv ! i = rv0 ! i"
    by auto
  have lt: "n < length (bi_value a)" "n < length (bi_value z)" "n < length rv"
    using Suc.prems len by simp_all
  have d: "0 \<le> bi_value a ! n" "bi_value a ! n < bi_base a" and zn: "bi_value z ! n = 0"
    using Suc.prems by simp_all
  have base: "bi_base a \<noteq> 0" using d by auto
  have step: "for_loop (add_step a z) [0..<Suc n] (rv0, 0) = Inr (rv[n := bi_value a ! n], 0)"
    using loop lt d zn base
    by (simp add: for_loop_snoc add_step_def Let_def mod_pos_pos_trivial div_pos_pos_trivial)
  have "\<forall>i<Suc n. rv[n := bi_value a ! n] ! i = bi_value a ! i"
    using same lt by (auto simp: nth_list_update less_Suc_eq)
  moreover have "\<forall>i. Suc n \<le> i \<longrightarrow> rv[n := bi_value a ! n] ! i = rv0 ! i"
    using rest by simp
  ultimately show ?case using step len by auto
qed

lemma bigint_add_zero:
  assumes sz: "bi_size a = 2048" and la: "length (bi_value a) = 2048"
    and dig: "digits_in (bi_base a) (bi_value a)"
    and z: "bi_value z = replicate 2048 0"
  shows "\<exists>r. bigint_add a z = Inr r \<and> bigint_eq r a"
proof -
  from add_zero_loop[of 2048 a z "replicate 2048 0"] la dig z
  obtain rv where
    loop: "for_loop (add_step a z) [0..<2048] (replicate 2048 0, 0) = Inr (rv, 0)"
    and len: "length rv = 2048"
    and same: "\<forall>i<2048. rv ! i = bi_value a ! i"
    by (auto simp: digits_in_nth)
  have "rv = bi_value a"
    using len la same by (intro nth_equalityI) simp_all
  then show ?thesis
    using loop sz by (simp add: bigint_add_def bigint_eq_def)
qed

section \<open>Subtraction\<close>

lemma sub_step_length:
  "sub_step a b i st = Inr st' \<Longrightarrow> length (fst st') = length (fst st)"
  by (cases st) (auto simp: sub_step_def Let_def split: if_splits)

lemma bigint_sub_shape:
  assumes "bigint_sub a b = Inr r"
  shows "bi_size r = 2048 \<and> bi_base r = 10 \<and> length (bi_value r) = 2048"
proof -
  from assms obtain rv borrow where
    loop: "for_loop (sub_step a b) [0..<nat (bi_size a)] (replicate 2048 0, 0) = Inr (rv, borrow)"
    and r: "r = Zero\<lparr>bi_value := rv\<rparr>"
    by (auto simp: bigint_sub_def split: sum.splits)
  have "length (fst (rv, borrow)) = 2048"
    by (rule for_loop_invariant[OF loop, where I = "\<lambda>st. length (fst st) = 2048"])
       (simp_all add: sub_step_length)
  with r show ?thesis by simp
qed

lemma sub_loop_inv:
  assumes n: "n \<le> length (bi_value a)" "n \<le> length (bi_value b)" "n \<le> length rv0"
    and da: "\<forall>i<n. 0 \<le> bi_value a ! i \<and> bi_value a ! i < bi_base a"
    and db: "\<forall>i<n. 0 \<le> bi_value b ! i \<and> bi_value b ! i < bi_base a"
  shows "\<exists>rv borrow. for_loop (sub_step a b) [0..<n] (rv0, 0) = Inr (rv, borrow)
           \<and> length rv = length rv0
           \<and> (borrow = 0 \<or> borrow = 1)
           \<and> (\<forall>i<n. 0 \<le> rv ! i \<and> rv ! i < bi_base a)
           \<and> (\<forall>i. n \<le> i \<longrightarrow> rv ! i = rv0 ! i)
           \<and> digits_val (bi_base a) (take n rv) - borrow * bi_base a ^ n
               = digits_val (bi_base a) (take n (bi_value a))
                 - digits_val (bi_base a) (take n (bi_value b))"
  using n da db
proof (induction n)
  case 0
  then show ?case by simp
next
  case (Suc n)
  let ?B = "bi_base a"
  from Suc obtain rv borrow where
    loop: "for_loop (sub_step a b) [0..<n] (rv0, 0) = Inr (rv, borrow)"
    and len: "length rv = length rv0"
    and bor: "borrow = 0 \<or> borrow = 1"
    and dig: "\<forall>i<n. 0 \<le> rv ! i \<and> rv ! i < ?B"
    and rest: "\<forall>i. n \<le> i \<longrightarrow> rv ! i = rv0 ! i"
    and val: "digits_val ?B (take n rv) - borrow * ?B ^ n
               = digits_val ?B (take n (bi_value a)) - digits_val ?B (take n (bi_value b))"
    by auto
  have lt: "n < length (bi_value a)" "n < length (bi_value b)" "n < length rv"
    using Suc.prems len by simp_all
  have an: "0 \<le> bi_value a ! n" "bi_value a ! n < ?B"
    and bn: "0 \<le> bi_value b ! n" "bi_value b ! n < ?B"
    using Suc.prems by simp_all
  define t where "t = bi_value a ! n - bi_value b ! n - borrow"
  define d where "d = (if t < 0 then t + ?B else t)"
  define borrow' :: int where "borrow' = (if t < 0 then 1 else 0)"
  define rv' where "rv' = rv[n := d]"
  have step: "for_loop (sub_step a b) [0..<Suc n] (rv0, 0) = Inr (rv', borrow')"
    using loop lt
    by (simp add: for_loop_snoc sub_step_def Let_def t_def d_def borrow'_def rv'_def)
  have len': "length rv' = length rv0" using len by (simp add: rv'_def)
  have bor': "borrow' = 0 \<or> borrow' = 1" by (simp add: borrow'_def)
  have drange: "0 \<le> d \<and> d < ?B"
    using an bn bor by (auto simp: d_def t_def)
  have dt: "d - borrow' * ?B = t" by (simp add: d_def borrow'_def)
  have dig': "\<forall>i<Suc n. 0 \<le> rv' ! i \<and> rv' ! i < ?B"
    using dig drange lt by (auto simp: rv'_def nth_list_update less_Suc_eq)
  have rest': "\<forall>i. Suc n \<le> i \<longrightarrow> rv' ! i = rv0 ! i"
    using rest by (simp add: rv'_def)
  have tk: "take n rv' = take n rv" by (simp add: rv'_def)
  have nth: "rv' ! n = d" using lt by (simp add: rv'_def)
  have regroup: "x * P - y * (B * P) = (x - y * B) * P" for x y P B :: int
    by (simp add: algebra_simps)
  have "digits_val ?B (take (Suc n) rv') - borrow' * ?B ^ Suc n
          = digits_val ?B (take n rv) + (d * ?B ^ n - borrow' * (?B * ?B ^ n))"
    using lt len' len by (simp add: digits_val_take_Suc tk nth)
  also have "\<dots> = digits_val ?B (take n rv) + t * ?B ^ n"
    by (simp only: regroup dt)
  also have "\<dots> = (digits_val ?B (take n rv) - borrow * ?B ^ n)
            + (bi_value a ! n - bi_value b ! n) * ?B ^ n"
    by (simp add: t_def algebra_simps)
  also have "\<dots> = digits_val ?B (take (Suc n) (bi_value a))
                   - digits_val ?B (take (Suc n) (bi_value b))"
    using lt val by (simp add: digits_val_take_Suc algebra_simps)
  finally have val': "digits_val ?B (take (Suc n) rv') - borrow' * ?B ^ Suc n
       = digits_val ?B (take (Suc n) (bi_value a)) - digits_val ?B (take (Suc n) (bi_value b))" .
  from step len' bor' dig' rest' val' show ?case by blast
qed

lemma bigint_sub_value:
  assumes base: "0 < bi_base a" and sz: "bi_size a \<le> 2048"
    and la: "int (length (bi_value a)) = bi_size a"
    and lb: "int (length (bi_value b)) = bi_size a"
    and da: "digits_in (bi_base a) (bi_value a)" and db: "digits_in (bi_base a) (bi_value b)"
  shows "\<exists>r. bigint_sub a b = Inr r
           \<and> digits_in (bi_base a) (bi_value r)
           \<and> digits_val (bi_base a) (bi_value r)
               = (digits_val (bi_base a) (bi_value a) - digits_val (bi_base a) (bi_value b))
                 mod bi_base a ^ nat (bi_size a)"
proof -
  let ?B = "bi_base a" and ?n = "nat (bi_size a)"
  have la': "length (bi_value a) = ?n" and lb': "length (bi_value b) = ?n" and sz': "?n \<le> 2048"
    using la lb sz by linarith+
  from sub_loop_inv[of ?n a b "replicate 2048 0"] la' lb' sz' da db
  obtain rv borrow where
    loop: "for_loop (sub_step a b) [0..<?n] (replicate 2048 0, 0) = Inr (rv, borrow)"
    and len: "length rv = 2048"
    and dig: "\<forall>i<?n. 0 \<le> rv ! i \<and> rv ! i < ?B"
    and rest: "\<forall>i. ?n \<le> i \<longrightarrow> rv ! i = replicate 2048 (0::int) ! i"
    and val: "digits_val ?B (take ?n rv) - borrow * ?B ^ ?n
               = digits_val ?B (bi_value a) - digits_val ?B (bi_value b)"
    by (auto simp: digits_in_nth)
  have res: "bigint_sub a b = Inr (Zero\<lparr>bi_value := rv\<rparr>)"
    using loop by (simp add: bigint_sub_def)
  have tail: "\<forall>i. ?n \<le> i \<and> i < 2048 \<longrightarrow> rv ! i = 0" using rest by simp
  have all: "digits_in ?B rv"
    unfolding digits_in_nth
  proof (intro allI impI)
    fix i assume "i < length rv"
    show "0 \<le> rv ! i \<and> rv ! i < ?B"
    proof (cases "i < ?n")
      case True
      with dig show ?thesis by simp
    next
      case False
      with tail \<open>i < length rv\<close> len base show ?thesis by simp
    qed
  qed
  have split: "rv = take ?n rv @ replicate (2048 - ?n) 0"
    using take_all_zero_tail[OF len sz' tail] .
  have low: "digits_in ?B (take ?n rv)"
    using dig len sz' by (simp add: digits_in_nth)
  have bounds: "0 \<le> digits_val ?B (take ?n rv)" "digits_val ?B (take ?n rv) < ?B ^ ?n"
    using digits_val_bounds[OF low] len sz' by simp_all
  have val2: "digits_val ?B (take ?n rv) + (- borrow) * ?B ^ ?n
               = digits_val ?B (bi_value a) - digits_val ?B (bi_value b)"
    using val by simp
  have "digits_val ?B rv = digits_val ?B (take ?n rv)"
    by (subst split) (simp add: digits_val_append)
  also have "\<dots> = (digits_val ?B (bi_value a) - digits_val ?B (bi_value b)) mod ?B ^ ?n"
    using mod_unique_low[OF bounds val2] .
  finally show ?thesis using res all by simp
qed

lemma sub_zero_loop:
  assumes n: "n \<le> length (bi_value a)" "n \<le> length (bi_value z)" "n \<le> length rv0"
    and dig: "\<forall>i<n. 0 \<le> bi_value a ! i"
    and zero: "\<forall>i<n. bi_value z ! i = 0"
  shows "\<exists>rv. for_loop (sub_step a z) [0..<n] (rv0, 0) = Inr (rv, 0)
           \<and> length rv = length rv0
           \<and> (\<forall>i<n. rv ! i = bi_value a ! i)
           \<and> (\<forall>i. n \<le> i \<longrightarrow> rv ! i = rv0 ! i)"
  using n dig zero
proof (induction n)
  case 0
  then show ?case by simp
next
  case (Suc n)
  from Suc obtain rv where
    loop: "for_loop (sub_step a z) [0..<n] (rv0, 0) = Inr (rv, 0)"
    and len: "length rv = length rv0"
    and same: "\<forall>i<n. rv ! i = bi_value a ! i"
    and rest: "\<forall>i. n \<le> i \<longrightarrow> rv ! i = rv0 ! i"
    by auto
  have lt: "n < length (bi_value a)" "n < length (bi_value z)" "n < length rv"
    using Suc.prems len by simp_all
  have d: "0 \<le> bi_value a ! n" and zn: "bi_value z ! n = 0"
    using Suc.prems by simp_all
  have step: "for_loop (sub_step a z) [0..<Suc n] (rv0, 0) = Inr (rv[n := bi_value a ! n], 0)"
    using loop lt d zn by (simp add: for_loop_snoc sub_step_def Let_def)
  have "\<forall>i<Suc n. rv[n := bi_value a ! n] ! i = bi_value a ! i"
    using same lt by (auto simp: nth_list_update less_Suc_eq)
  moreover have "\<forall>i. Suc n \<le> i \<longrightarrow> rv[n := bi_value a ! n] ! i = rv0 ! i"
    using rest by simp
  ultimately show ?case using step len by auto
qed

lemma bigint_sub_zero:
  assumes sz: "bi_size a = 2048" and la: "length (bi_value a) = 2048"
    and dig: "digits_in (bi_base a) (bi_value a)"
    and z: "bi_value z = replicate 2048 0"
  shows "\<exists>r. bigint_sub a z = Inr r \<and> bigint_eq r a"
proof -
  from sub_zero_loop[of 2048 a z "replicate 2048 0"] la dig z
  obtain rv where
    loop: "for_loop (sub_step a z) [0..<2048] (replicate 2048 0, 0) = Inr (rv, 0)"
    and len: "length rv = 2048"
    and same: "\<forall>i<2048. rv ! i = bi_value a ! i"
    by (auto simp: digits_in_nth)
  have "rv = bi_value a"
    using len la same by (intro nth_equalityI) simp_all
  then show ?thesis
    using loop sz by (simp add: bigint_sub_def bigint_eq_def)
qed

section \<open>Multiplication\<close>

lemma mul_step_length:
  "mul_step a b i j rv = Inr rv' \<Longrightarrow> length rv' = length rv"
  by (auto simp: mul_step_def Let_def split: if_splits)

lemma mul_row_length:
  assumes "mul_row a b i rv = Inr rv'"
  shows "length rv' = length rv"
proof -
  have "length rv' = length rv"
    by (rule for_loop_invariant[OF assms[unfolded mul_row_def], where I = "\<lambda>t. length t = length rv"])
       (simp_all add: mul_step_length)
  then show ?thesis .
qed

lemma bigint_mul_shape:
  assumes "bigint_mul a b = Inr r"
  shows "bi_size r = 2048 \<and> bi_base r = 10 \<and> length (bi_value r) = 2048"
proof -
  from assms obtain rv where
    loop: "for_loop (mul_row a b) [0..<nat (bi_size a)] (replicate 2048 0) = Inr rv"
    and r: "r = Zero\<lparr>bi_value := rv\<rparr>"
    by (auto simp: bigint_mul_def split: sum.splits)
  have "length rv = 2048"
    by (rule for_loop_invariant[OF loop, where I = "\<lambda>t. length t = 2048"])
       (simp_all add: mul_row_length)
  with r show ?thesis by simp
qed

lemma mul_step_error:
  "bi_base a \<noteq> 0 \<Longrightarrow> mul_step a b i j rv = Inl e \<Longrightarrow> e = IndexError"
  by (auto simp: mul_step_def Let_def split: if_splits)

lemma mul_row_overflow:
  assumes base: "bi_base a \<noteq> 0" and sz: "2048 \<le> bi_size a" and len: "length rv = 2048"
  shows "mul_row a b 0 rv = Inl IndexError"
proof -
  have "\<exists>e. for_loop (mul_step a b 0) [0..<nat (bi_size a - int 0)] rv = Inl e"
  proof (rule for_loop_raises[where x = 2047 and I = "\<lambda>t. length t = 2048"])
    show "2047 \<in> set [0..<nat (bi_size a - int 0)]" using sz by simp
    show "length rv = 2048" by (rule len)
    show "\<And>y t t'. length t = 2048 \<Longrightarrow> mul_step a b 0 y t = Inr t' \<Longrightarrow> length t' = 2048"
      by (simp add: mul_step_length)
    show "\<And>t. length t = 2048 \<Longrightarrow> \<exists>e. mul_step a b 0 2047 t = Inl e"
      by (simp add: mul_step_def Let_def)
  qed
  then obtain e where e: "for_loop (mul_step a b 0) [0..<nat (bi_size a - int 0)] rv = Inl e" ..
  have "e = IndexError"
    by (rule for_loop_error_kind[OF e]) (rule mul_step_error[OF base])
  with e show ?thesis by (simp add: mul_row_def)
qed

lemma bigint_mul_overflow:
  assumes base: "bi_base a \<noteq> 0" and sz: "2048 \<le> bi_size a"
  shows "bigint_mul a b = Inl IndexError"
proof -
  have "[0..<nat (bi_size a)] = 0 # [Suc 0..<nat (bi_size a)]"
    using sz upt_conv_Cons[of 0 "nat (bi_size a)"] by simp
  then have "for_loop (mul_row a b) [0..<nat (bi_size a)] (replicate 2048 0) = Inl IndexError"
    using mul_row_overflow[OF base sz, of "replicate 2048 0" b] by simp
  then show ?thesis by (simp add: bigint_mul_def)
qed

section \<open>Reduction\<close>

lemma all_zero_replicate [simp]: "all_zero (replicate n 0)"
  by (simp add: all_zero_def list_all_length)

lemma all_zero_iff: "all_zero ds \<longleftrightarrow> ds = replicate (length ds) 0"
  by (induction ds) (auto simp: all_zero_def)

lemma all_zero_digits_val: "all_zero ds \<Longrightarrow> digits_val b ds = 0"
  by (induction ds) (auto simp: all_zero_def)

lemma zeros_all_zero: "ds = replicate n 0 \<Longrightarrow> list_all (\<lambda>digit. digit = 0) ds"
  by (simp add: list_all_length)

lemma bigint_mod_unfold:
  "bigint_mod a m =
     (if bi_value m = replicate 2048 0 then Inl ZeroModulus
      else if all_zero (bi_value a) then Inr Zero
      else (case for_loop (mod_step a m) (rev [0..<nat (bi_size a)]) (bi_value a) of
              Inl e \<Rightarrow> (if e = ZeroDivisionError then Inl ZeroModulus else Inl e)
            | Inr rv \<Rightarrow> Inr \<lparr>bi_size = 2048, bi_base = 10, bi_value = rv\<rparr>))"
proof (cases "bi_value m = replicate 2048 0")
  case True
  then show ?thesis by (simp add: bigint_mod_def bigint_eq_def)
next
  case mnz: False
  show ?thesis
  proof (cases "all_zero (bi_value a)")
    case True
    then show ?thesis
      using mnz by (simp add: bigint_mod_def bigint_eq_def all_zero_def)
  next
    case False
    then have "bi_value a \<noteq> replicate 2048 0"
      using zeros_all_zero[of "bi_value a" 2048] by (auto simp: all_zero_def)
    then show ?thesis
      using mnz False by (simp add: bigint_mod_def bigint_eq_def all_zero_def split: sum.splits)
  qed
qed

lemma bigint_mod_zero_modulus:
  "bi_value m = replicate 2048 0 \<Longrightarrow> bigint_mod a m = Inl ZeroModulus"
  by (simp add: bigint_mod_unfold)

lemma rev_upt_Suc: "rev [0..<Suc n] = n # rev [0..<n]"
  by simp

lemma bigint_mod_top_digit_zero:
  assumes nz: "\<not> all_zero (bi_value a)"
    and mz: "bi_value m \<noteq> replicate 2048 0"
    and sz: "0 < bi_size a"
    and la: "nat (bi_size a) \<le> length (bi_value a)"
    and lm: "nat (bi_size a) \<le> length (bi_value m)"
    and top: "bi_value m ! (nat (bi_size a) - 1) = 0"
  shows "bigint_mod a m = Inl ZeroModulus"
proof -
  obtain k where k: "nat (bi_size a) = Suc k" using sz by (cases "nat (bi_size a)") simp_all
  have "mod_step a m k (bi_value a) = Inl ZeroDivisionError"
    using la lm top k by (simp add: mod_step_def)
  then have "for_loop (mod_step a m) (rev [0..<nat (bi_size a)]) (bi_value a) = Inl ZeroDivisionError"
    by (simp add: k)
  then show ?thesis using nz mz by (simp add: bigint_mod_unfold)
qed

lemma mod_step_length:
  "mod_step a m j rv = Inr rv' \<Longrightarrow> length rv' = length rv"
  by (auto simp: mod_step_def Let_def split: if_splits)

lemma bigint_mod_shape:
  assumes "bigint_mod a m = Inr r"
  shows "bi_size r = 2048 \<and> bi_base r = 10
         \<and> (r = Zero \<or> length (bi_value r) = length (bi_value a))"
proof (cases "all_zero (bi_value a)")
  case True
  with assms show ?thesis by (simp add: bigint_mod_unfold split: if_splits)
next
  case False
  with assms obtain rv where
    loop: "for_loop (mod_step a m) (rev [0..<nat (bi_size a)]) (bi_value a) = Inr rv"
    and r: "r = \<lparr>bi_size = 2048, bi_base = 10, bi_value = rv\<rparr>"
    by (auto simp: bigint_mod_unfold split: if_splits sum.splits)
  have "length rv = length (bi_value a)"
    by (rule for_loop_invariant[OF loop, where I = "\<lambda>t. length t = length (bi_value a)"])
       (simp_all add: mod_step_length)
  with r show ?thesis by simp
qed

lemma mod_loop_last_digit:
  assumes "for_loop (mod_step a m) (rev [0..<Suc n]) rv = Inr rv'"
  shows "\<bar>rv' ! 0\<bar> < \<bar>bi_value m ! 0\<bar>"
  using assms
proof (induction n arbitrary: rv)
  case 0
  then have t: "mod_step a m 0 rv = Inr rv'"
    by (simp split: sum.splits)
  then have "bi_value m ! 0 \<noteq> 0" and "rv' = rv[0 := rv ! 0 mod bi_value m ! 0]" and "0 < length rv"
    by (auto simp: mod_step_def split: if_splits)
  then show ?case by (simp add: abs_mod_less)
next
  case (Suc n)
  from Suc.prems obtain t where "for_loop (mod_step a m) (rev [0..<Suc n]) t = Inr rv'"
    by (auto split: sum.splits)
  then show ?case by (rule Suc.IH)
qed

lemma bigint_mod_decreases:
  assumes "bigint_mod a m = Inr r"
  shows "bi_value r = replicate 2048 0 \<or> bi_size a \<le> 0
         \<or> \<bar>bi_value r ! 0\<bar> < \<bar>bi_value m ! 0\<bar>"
proof (cases "all_zero (bi_value a)")
  case True
  with assms show ?thesis by (simp add: bigint_mod_unfold split: if_splits)
next
  case False
  with assms obtain rv where
    loop: "for_loop (mod_step a m) (rev [0..<nat (bi_size a)]) (bi_value a) = Inr rv"
    and r: "r = \<lparr>bi_size = 2048, bi_base = 10, bi_value = rv\<rparr>"
    by (auto simp: bigint_mod_unfold split: if_splits sum.splits)
  show ?thesis
  proof (cases "nat (bi_size a)")
    case 0
    then show ?thesis by simp
  next
    case (Suc n)
    with loop have "\<bar>rv ! 0\<bar> < \<bar>bi_value m ! 0\<bar>"
      using mod_loop_last_digit[of a m n "bi_value a" rv] by simp
    with r show ?thesis by simp
  qed
qed

section \<open>Zero values and the sample operands\<close>

lemma not_zeros_by_length: "length ds \<noteq> 2048 \<Longrightarrow> ds \<noteq> replicate 2048 0"
  by auto

lemma all_zero_Nil [simp]: "all_zero []"
  by (simp add: all_zero_def)

lemma all_zero_Cons [simp]: "all_zero (d # ds) \<longleftrightarrow> d = 0 \<and> all_zero ds"
  by (simp add: all_zero_def)

lemma digits_in_Nil [simp]: "digits_in b []"
  by (simp add: digits_in_def)

lemma digits_in_Cons [simp]: "digits_in b (d # ds) \<longleftrightarrow> 0 \<le> d \<and> d < b \<and> digits_in b ds"
  by (simp add: digits_in_def)

lemma digits_in_replicate_0 [simp]: "digits_in b (replicate n 0) \<longleftrightarrow> n = 0 \<or> 0 < b"
  by (auto simp: digits_in_nth)

lemma BigInt_of_small:
  assumes "0 \<le> n" and "n < 10 ^ k" and "k \<le> 2048"
  shows "BigInt_of n = Inr (padded (map (\<lambda>i. n div 10 ^ i mod 10) [0..<k]))"
proof -
  let ?f = "\<lambda>i. n div 10 ^ i mod 10"
  have "[0..<k + (2048 - k)] = [0..<k] @ [k..<k + (2048 - k)]"
    by (rule upt_add_eq_append) simp
  then have split: "[0..<2048] = [0..<k] @ [k..<2048]"
    using assms(3) by simp
  have "map ?f [k..<2048] = replicate (length [k..<2048]) 0"
  proof (rule map_const_replicate)
    fix x assume "x \<in> set [k..<2048]"
    then have "k \<le> x" by simp
    then have "n div 10 ^ x = 0"
      using small_digit_zero[OF assms(1,2), of x] by simp
    then show "n div 10 ^ x mod 10 = 0" by simp
  qed
  then have "map ?f [0..<2048] = map ?f [0..<k] @ replicate (2048 - k) 0"
    by (subst split) simp
  then show ?thesis by (simp add: BigInt_of_eq padded_def)
qed

lemma padded_fields [simp]:
  "bi_size (padded ds) = 2048" "bi_base (padded ds) = 10"
  "bi_value (padded ds) = ds @ replicate (2048 - length ds) 0"
  by (simp_all add: padded_def)

lemma sample_a: "BigInt_of 12345 = Inr (padded [5, 4, 3, 2, 1])"
proof -
  have "map (\<lambda>i. (12345::int) div 10 ^ i mod 10) [0..<5] = [5, 4, 3, 2, 1]"
    by (simp add: numeral_eq_Suc)
  then show ?thesis using BigInt_of_small[of 12345 5] by simp
qed

lemma sample_b: "BigInt_of 67890 = Inr (padded [0, 9, 8, 7, 6])"
proof -
  have "map (\<lambda>i. (67890::int) div 10 ^ i mod 10) [0..<5] = [0, 9, 8, 7, 6]"
    by (simp add: numeral_eq_Suc)
  then show ?thesis using BigInt_of_small[of 67890 5] by simp
qed

lemma sample_modulus: "BigInt_of 100 = Inr (padded [0, 0, 1])"
proof -
  have "map (\<lambda>i. (100::int) div 10 ^ i mod 10) [0..<3] = [0, 0, 1]"
    by (simp add: numeral_eq_Suc)
  then show ?thesis using BigInt_of_small[of 100 3] by simp
qed

lemma low_value_not_all_zero:
  assumes val: "digits_val B ds = x mod B ^ n"
    and x: "0 < x" "x < B ^ k" and kn: "k \<le> n" and B: "0 < (B::int)"
  shows "\<not> all_zero ds"
proof
  assume "all_zero ds"
  then have zero: "x mod B ^ n = 0" using val by (simp add: all_zero_digits_val)
  have "B ^ k \<le> B ^ n" using kn B by (simp add: power_increasing)
  with x have "x mod B ^ n = x" by (simp add: mod_pos_pos_trivial)
  with zero x show False by simp
qed

lemma negative_value_not_all_zero:
  assumes val: "digits_val B ds = x mod B ^ n"
    and x: "x < 0" "- (B ^ k) < x" and kn: "k \<le> n" and B: "0 < (B::int)"
  shows "\<not> all_zero ds"
proof
  assume "all_zero ds"
  then have "x mod B ^ n = 0" using val by (simp add: all_zero_digits_val)
  then have "B ^ n dvd x" by (simp add: dvd_eq_mod_eq_0)
  then have "\<bar>B ^ n\<bar> \<le> \<bar>x\<bar>" using x(1) by (intro dvd_imp_le_int) simp_all
  moreover have "B ^ k \<le> B ^ n" using kn B by (simp add: power_increasing)
  moreover have "0 < B ^ n" using B by simp
  ultimately show False using x by simp
qed

lemma mod_100_fails:
  assumes "bi_size r = 2048" and "length (bi_value r) = 2048" and "\<not> all_zero (bi_value r)"
  shows "bigint_mod r (padded [0, 0, 1]) = Inl ZeroModulus"
proof (rule bigint_mod_top_digit_zero)
  show "\<not> all_zero (bi_value r)" by (rule assms(3))
  have "bi_value (padded [0, 0, 1]) ! 2 \<noteq> replicate 2048 (0::int) ! 2"
    by simp
  then show "bi_value (padded [0, 0, 1]) \<noteq> replicate 2048 0" by metis
  show "0 < bi_size r" using assms(1) by simp
  show "nat (bi_size r) \<le> length (bi_value r)" using assms(1,2) by simp
  show "nat (bi_size r) \<le> length (bi_value (padded [0, 0, 1]))" using assms(1) by simp
  show "bi_value (padded [0, 0, 1]) ! (nat (bi_size r) - 1) = 0"
    using assms(1) by (simp add: nth_append)
qed

lemma One_fields [simp]:
  "bi_size One = 2048" "bi_base One = 10" "bi_value One = 1 # replicate 2047 0"
  by (simp_all add: One_def)

lemma One_not_Zero: "\<not> bigint_eq One Zero"
proof
  assume "bigint_eq One Zero"
  then have "bi_value One ! 0 = bi_value Zero ! 0" by (simp only: bigint_eq_def)
  then show False by simp
qed

section \<open>The Euclidean loop\<close>

lemma gcd_loop_unfold:
  "gcd_loop a b =
     (if bigint_eq b Zero then Some (Inr a)
      else (case bigint_mod a b of Inl e \<Rightarrow> Some (Inl e) | Inr r \<Rightarrow> gcd_loop b r))"
  by (subst gcd_loop.simps) (simp add: bigint_ne_def)

lemma gcd_loop_stop: "bigint_eq b Zero \<Longrightarrow> gcd_loop a b = Some (Inr a)"
  by (subst gcd_loop_unfold) simp

lemma gcd_loop_abort:
  "\<not> bigint_eq b Zero \<Longrightarrow> bigint_mod a b = Inl e \<Longrightarrow> gcd_loop a b = Some (Inl e)"
  by (subst gcd_loop_unfold) simp

lemma gcd_loop_iter:
  "\<not> bigint_eq b Zero \<Longrightarrow> bigint_mod a b = Inr r \<Longrightarrow> gcd_loop a b = gcd_loop b r"
  by (subst gcd_loop_unfold) simp

lemma gcd_loop_terminates_sized:
  assumes "0 < bi_size a" and "0 < bi_size b"
  shows "\<exists>n res. gcd_loop a b = Some res \<and> euclid_run n a b res"
  using assms
proof (induction "nat \<bar>bi_value b ! 0\<bar>" arbitrary: a b rule: less_induct)
  case less
  show ?case
  proof (cases "bigint_eq b Zero")
    case True
    then show ?thesis using gcd_loop_stop euclid_stop by blast
  next
    case nz: False
    show ?thesis
    proof (cases "bigint_mod a b")
      case (Inl e)
      with nz show ?thesis using gcd_loop_abort euclid_abort by blast
    next
      case (Inr r)
      have step: "gcd_loop a b = gcd_loop b r" using nz Inr by (rule gcd_loop_iter)
      have rsize: "bi_size r = 2048" using bigint_mod_shape[OF Inr] by simp
      from bigint_mod_decreases[OF Inr] less.prems(1)
      consider "bi_value r = replicate 2048 0" | "\<bar>bi_value r ! 0\<bar> < \<bar>bi_value b ! 0\<bar>"
        by auto
      then have "\<exists>n res. gcd_loop b r = Some res \<and> euclid_run n b r res"
      proof cases
        case 1
        then have "bigint_eq r Zero" by (simp add: bigint_eq_def)
        then show ?thesis using gcd_loop_stop euclid_stop by blast
      next
        case 2
        then have "nat \<bar>bi_value r ! 0\<bar> < nat \<bar>bi_value b ! 0\<bar>" by simp
        then show ?thesis
          using less.prems(2) rsize by (intro less.hyps) simp_all
      qed
      then obtain n res where "gcd_loop b r = Some res" and "euclid_run n b r res" by blast
      with step nz Inr show ?thesis using euclid_iter by metis
    qed
  qed
qed

lemma gcd_loop_terminates_step:
  assumes next_ok: "\<And>r. bigint_mod a b = Inr r
                      \<Longrightarrow> \<exists>n res. gcd_loop b r = Some res \<and> euclid_run n b r res"
  shows "\<exists>n res. gcd_loop a b = Some res \<and> euclid_run n a b res"
proof (cases "bigint_eq b Zero")
  case True
  then show ?thesis using gcd_loop_stop euclid_stop by blast
next
  case nz: False
  show ?thesis
  proof (cases "bigint_mod a b")
    case (Inl e)
    with nz show ?thesis using gcd_loop_abort euclid_abort by blast
  next
    case (Inr r)
    have step: "gcd_loop a b = gcd_loop b r" using nz Inr by (rule gcd_loop_iter)
    from next_ok[OF Inr] obtain n res where "gcd_loop b r = Some res" and "euclid_run n b r res"
      by blast
    with step nz Inr show ?thesis using euclid_iter by metis
  qed
qed

lemma gcd_loop_terminates:
  "\<exists>n res. gcd_loop a b = Some res \<and> euclid_run n a b res"
proof (rule gcd_loop_terminates_step)
  fix r assume r: "bigint_mod a b = Inr r"
  show "\<exists>n res. gcd_loop b r = Some res \<and> euclid_run n b r res"
  proof (rule gcd_loop_terminates_step)
    fix r' assume r': "bigint_mod b r = Inr r'"
    have "bi_size r = 2048" using bigint_mod_shape[OF r] by simp
    moreover have "bi_size r' = 2048" using bigint_mod_shape[OF r'] by simp
    ultimately show "\<exists>n res. gcd_loop r r' = Some res \<and> euclid_run n r r' res"
      by (intro gcd_loop_terminates_sized) simp_all
  qed
qed

section \<open>The shape of results\<close>

lemma parse_digits_length: "parse_digits b cs = Inr ds \<Longrightarrow> length ds = length cs"
  by (induction cs arbitrary: ds) (auto split: sum.splits)

lemma bigint_init_str_shape:
  assumes "bigint_init (PyStr s) b sz = Inr r"
  shows "length (bi_value r) = length s \<and> bi_size r = sz"
  using assms
  by (auto simp: bigint_init_def from_str_def split: sum.splits dest: parse_digits_length)

lemma bigint_rshift_shape:
  assumes "bigint_rshift a k = Inr r"
  shows "bi_value r = py_slice_from (bi_value a) k \<and> bi_size r = 2048 \<and> bi_base r = 10"
  using assms by (auto simp: bigint_rshift_def)

lemma bigint_mod_size_ok:
  assumes "bigint_mod a m = Inr r" and "length (bi_value a) = 2048"
  shows "bi_size r = 2048 \<and> length (bi_value r) = 2048"
  using bigint_mod_shape[OF assms(1)] assms(2) by auto

lemma bigint_gcd_run:
  "\<exists>n res. bigint_gcd a b = Some res \<and> euclid_run n a b res"
proof (cases "bigint_eq b Zero")
  case True
  then have "bigint_gcd a b = Some (Inr a)" by (simp add: bigint_gcd_def)
  with True show ?thesis using euclid_stop by blast
next
  case False
  then have "bigint_gcd a b = gcd_loop a b" by (simp add: bigint_gcd_def)
  then show ?thesis using gcd_loop_terminates[of a b] by simp
qed

lemma mod_add_shape:
  assumes "mod_add a b m = Inr r"
  shows "bi_size r = 2048 \<and> length (bi_value r) = 2048"
proof -
  from assms obtain s where s: "bigint_add a b = Inr s" and r: "bigint_mod s m = Inr r"
    by (auto simp: mod_add_def bind_err_eq_Inr)
  show ?thesis using bigint_mod_size_ok[OF r] bigint_add_shape[OF s] by simp
qed

lemma mod_sub_shape:
  assumes "mod_sub a b m = Inr r"
  shows "bi_size r = 2048 \<and> length (bi_value r) = 2048"
proof -
  from assms obtain s where s: "bigint_sub a b = Inr s" and r: "bigint_mod s m = Inr r"
    by (auto simp: mod_sub_def bind_err_eq_Inr)
  show ?thesis using bigint_mod_size_ok[OF r] bigint_sub_shape[OF s] by simp
qed

lemma mod_pow_loop_default:
  assumes "bi_size res = 2048" "bi_base res \<noteq> 0" "bi_size bp = 2048" "bi_base bp \<noteq> 0"
  shows "mod_pow_loop m e res bp = (if 0 < e then Inl IndexError else Inr res)"
proof -
  have "bigint_mul res bp = Inl IndexError" "bigint_mul bp bp = Inl IndexError"
    using assms by (simp_all add: bigint_mul_overflow)
  then show ?thesis by (subst mod_pow_loop.simps) simp
qed

lemma mod_pow_result:
  assumes "mod_pow a e m = Inr r"
  shows "r = One \<and> e \<le> 0"
proof -
  from assms obtain bp where bp: "bigint_mod a m = Inr bp"
    and loop: "mod_pow_loop m e One bp = Inr r"
    by (auto simp: mod_pow_def bind_err_eq_Inr)
  have "mod_pow_loop m e One bp = (if 0 < e then Inl IndexError else Inr One)"
    using bigint_mod_shape[OF bp] by (intro mod_pow_loop_default) (simp_all add: One_def)
  with loop show ?thesis by (auto split: if_splits)
qed

lemma bigint_lcm_result:
  assumes "bigint_lcm a b = Some (Inr r)"
  shows "r = Zero"
  using assms
  by (auto simp: bigint_lcm_def bigint_floordiv_def bind_err_def
           split: option.splits sum.splits if_splits)

section \<open>Operations that cannot return\<close>

lemma bigint_mul_default_raises:
  assumes "bi_size q = 2048" and "bi_base q = 10"
  shows "bigint_mul q m = Inl IndexError"
  using assms by (intro bigint_mul_overflow) simp_all

lemma mod_mul_never_returns: "\<exists>e. mod_mul a b m = Inl e"
proof (cases "mod_mul a b m")
  case (Inl e)
  then show ?thesis by blast
next
  case (Inr r)
  then obtain p q1 q1m where "bigint_mul a b = Inr p" and q1: "bigint_rshift p (2 * bi_size a) = Inr q1"
    and "bigint_mul q1 m = Inr q1m"
    by (auto simp: mod_mul_def bind_err_eq_Inr)
  moreover have "bigint_mul q1 m = Inl IndexError"
    using bigint_rshift_shape[OF q1] by (intro bigint_mul_default_raises) simp_all
  ultimately show ?thesis by simp
qed

lemma mod_square_never_returns: "\<exists>e. mod_square a m = Inl e"
proof (cases "mod_square a m")
  case (Inl e)
  then show ?thesis by blast
next
  case (Inr r)
  then obtain p q1 q1m where "bigint_mul a a = Inr p" and q1: "bigint_rshift p (2 * bi_size a) = Inr q1"
    and "bigint_mul q1 m = Inr q1m"
    by (auto simp: mod_square_def bind_err_eq_Inr)
  moreover have "bigint_mul q1 m = Inl IndexError"
    using bigint_rshift_shape[OF q1] by (intro bigint_mul_default_raises) simp_all
  ultimately show ?thesis by simp
qed

text \<open>
  The second operand of the example at the end of the source is built from the string
  \<open>"67890"\<close> and has five digits; the sum with a value of 2048 digits reads past them.
\<close>

lemma add_short_operand_raises:
  "bigint_add (padded [5, 4, 3, 2, 1]) \<lparr>bi_size = 2048, bi_base = 10, bi_value = [0, 9, 8, 7, 6]\<rparr>
     = Inl IndexError"
proof -
  let ?a = "padded [5, 4, 3, 2, 1]"
  let ?b = "\<lparr>bi_size = 2048, bi_base = 10, bi_value = [0, 9, 8, 7, 6]\<rparr>"
  have "\<exists>e. for_loop (add_step ?a ?b) [0..<nat (bi_size ?a)] (replicate 2048 0, 0) = Inl e"
  proof (rule for_loop_raises[where x = 5 and I = "\<lambda>st. True"])
    show "5 \<in> set [0..<nat (bi_size ?a)]" by simp
    show "\<And>t. True \<Longrightarrow> \<exists>e. add_step ?a ?b 5 t = Inl e"
      by (simp add: add_step_def split: prod.splits)
  qed simp_all
  then obtain e where e: "for_loop (add_step ?a ?b) [0..<nat (bi_size ?a)] (replicate 2048 0, 0) = Inl e" ..
  have "e = IndexError"
    by (rule for_loop_error_kind[OF e])
       (auto simp: add_step_def Let_def split: prod.splits if_splits)
  with e show ?thesis by (simp add: bigint_add_def)
qed

section \<open>Remainders and the size of results\<close>

lemma all_zero_nth: "all_zero ds \<Longrightarrow> i < length ds \<Longrightarrow> ds ! i = 0"
  by (simp add: all_zero_def list_all_length)

lemma mod_loop_first_step:
  assumes "for_loop (mod_step a m) (rev [0..<Suc k]) rv = Inr rv'"
  shows "k < length rv \<and> k < length (bi_value m) \<and> bi_value m ! k \<noteq> 0"
proof -
  from assms obtain t where "mod_step a m k rv = Inr t"
    by (auto split: sum.splits)
  then show ?thesis by (auto simp: mod_step_def split: if_splits)
qed

lemma bigint_mod_of_zero:
  assumes "bigint_mod a m = Inr r" and "all_zero (bi_value a)"
  shows "r = Zero"
  using assms by (simp add: bigint_mod_unfold split: if_splits)

lemma bigint_mod_of_nonzero:
  assumes "bigint_mod a m = Inr r" and "\<not> all_zero (bi_value a)"
  shows "bi_size r = 2048 \<and> length (bi_value r) = length (bi_value a)
         \<and> (0 < bi_size a \<longrightarrow> nat (bi_size a) \<le> length (bi_value a)
               \<and> nat (bi_size a) \<le> length (bi_value m) \<and> \<not> all_zero (bi_value m))"
proof -
  from assms obtain rv where
    loop: "for_loop (mod_step a m) (rev [0..<nat (bi_size a)]) (bi_value a) = Inr rv"
    and r: "r = \<lparr>bi_size = 2048, bi_base = 10, bi_value = rv\<rparr>"
    by (auto simp: bigint_mod_unfold split: if_splits sum.splits)
  have len: "length rv = length (bi_value a)"
    by (rule for_loop_invariant[OF loop, where I = "\<lambda>t. length t = length (bi_value a)"])
       (simp_all add: mod_step_length)
  have "nat (bi_size a) \<le> length (bi_value a) \<and> nat (bi_size a) \<le> length (bi_value m)
        \<and> \<not> all_zero (bi_value m)" if pos: "0 < bi_size a"
  proof -
    obtain k where k: "nat (bi_size a) = Suc k" using pos by (cases "nat (bi_size a)") simp_all
    from mod_loop_first_step[of a m k "bi_value a" rv] loop k
    have f: "k < length (bi_value a)" "k < length (bi_value m)" "bi_value m ! k \<noteq> 0"
      by simp_all
    then have "\<not> all_zero (bi_value m)" using all_zero_nth[of "bi_value m" k] by auto
    with f k show ?thesis by simp
  qed
  with r len show ?thesis by simp
qed

lemma size_ok_nonzero_positive:
  assumes "size_ok a" and "\<not> all_zero (bi_value a)"
  shows "0 < bi_size a \<and> nat (bi_size a) = length (bi_value a)"
proof -
  have "bi_value a \<noteq> []" using assms(2) by auto
  then have "0 < length (bi_value a)" by simp
  with assms(1) show ?thesis unfolding size_ok_def by linarith
qed

lemma size_ok_Zero [simp]: "size_ok Zero"
  by (simp add: size_ok_def)

lemma gcd_step_from_operands:
  assumes "size_ok a" and "size_ok b" and "bigint_mod a b = Inr r"
  shows "(size_ok b \<and> size_ok r) \<or> mixed_pair b r"
proof (cases "all_zero (bi_value a)")
  case True
  then have "r = Zero" using assms(3) by (rule bigint_mod_of_zero[rotated])
  with assms(2) show ?thesis by simp
next
  case False
  from size_ok_nonzero_positive[OF assms(1) False]
  have pos: "0 < bi_size a" and la: "nat (bi_size a) = length (bi_value a)" by simp_all
  from bigint_mod_of_nonzero[OF assms(3) False] pos la
  have r: "bi_size r = 2048" "length (bi_value r) = length (bi_value a)"
    and b: "length (bi_value a) \<le> length (bi_value b)" "\<not> all_zero (bi_value b)"
    by simp_all
  show ?thesis
  proof (cases "length (bi_value a) = 2048")
    case True
    with r have "size_ok r" by (simp add: size_ok_def)
    with assms(2) show ?thesis by simp
  next
    case False
    with r b assms(2) have "mixed_pair b r" by (simp add: mixed_pair_def)
    then show ?thesis by simp
  qed
qed

lemma gcd_step_from_mixed:
  assumes "mixed_pair a b" and "bigint_mod a b = Inr r"
  shows "stray_pair b r"
proof -
  from assms(1) have ok: "size_ok a" and nz: "\<not> all_zero (bi_value a)"
    and b: "bi_size b = 2048" "length (bi_value b) \<noteq> 2048"
           "length (bi_value b) \<le> length (bi_value a)"
    by (simp_all add: mixed_pair_def)
  from size_ok_nonzero_positive[OF ok nz]
  have pos: "0 < bi_size a" and la: "nat (bi_size a) = length (bi_value a)" by simp_all
  from bigint_mod_of_nonzero[OF assms(2) nz] pos la
  have r: "bi_size r = 2048" "length (bi_value r) = length (bi_value a)"
    and b': "length (bi_value a) \<le> length (bi_value b)" "\<not> all_zero (bi_value b)"
    by simp_all
  from b b' have "length (bi_value a) = length (bi_value b)" by simp
  with r b b' show ?thesis by (simp add: stray_pair_def)
qed

lemma gcd_step_from_stray:
  assumes "stray_pair a b" and "bigint_mod a b = Inr r"
  shows "stray_pair b r"
proof -
  from assms(1) have nz: "\<not> all_zero (bi_value a)"
    and a: "bi_size a = 2048" "length (bi_value a) \<noteq> 2048"
    and b: "bi_size b = 2048" "length (bi_value b) \<noteq> 2048"
    by (simp_all add: stray_pair_def)
  from bigint_mod_of_nonzero[OF assms(2) nz] a
  have "bi_size r = 2048" "length (bi_value r) = length (bi_value a)" "\<not> all_zero (bi_value b)"
    by simp_all
  with a b show ?thesis by (simp add: stray_pair_def)
qed

lemma euclid_run_size_ok:
  assumes "euclid_run n a b res" and "res = Inr r"
    and "(size_ok a \<and> size_ok b) \<or> mixed_pair a b \<or> stray_pair a b"
  shows "size_ok r"
  using assms
proof (induction rule: euclid_run.induct)
  case (euclid_stop b a)
  then have "length (bi_value b) = 2048" by (simp add: bigint_eq_def)
  with euclid_stop show ?case by (auto simp: mixed_pair_def stray_pair_def)
next
  case (euclid_abort b a e)
  then show ?case by simp
next
  case (euclid_iter b a r' n res)
  from euclid_iter.prems(2) euclid_iter.hyps(2)
  have "(size_ok b \<and> size_ok r') \<or> mixed_pair b r' \<or> stray_pair b r'"
    using gcd_step_from_operands[of a b r'] gcd_step_from_mixed[of a b r']
      gcd_step_from_stray[of a b r']
    by blast
  with euclid_iter show ?case by blast
qed

lemma bigint_gcd_size_ok:
  assumes "bigint_gcd a b = Some (Inr r)" and "size_ok a" and "size_ok b"
  shows "size_ok r"
proof -
  from bigint_gcd_run[of a b] assms(1) obtain n where "euclid_run n a b (Inr r)" by auto
  then show ?thesis using euclid_run_size_ok[of n a b "Inr r" r] assms(2,3) by simp
qed

section \<open>A modulus of ones\<close>

lemma mod_loop_ones:
  assumes "\<forall>j<n. bi_value m ! j = 1" and "n \<le> length (bi_value m)" and "n \<le> length rv"
  shows "for_loop (mod_step a m) (rev [0..<n]) rv = Inr (replicate n 0 @ drop n rv)"
  using assms
proof (induction n arbitrary: rv)
  case 0
  then show ?case by simp
next
  case (Suc n)
  have lt: "n < length rv" "n < length (bi_value m)" and one: "bi_value m ! n = 1"
    using Suc.prems by simp_all
  define rv2 where "rv2 = (if n > 0 then rv[n := 0, n - 1 := 0] else rv[n := 0])"
  have step: "mod_step a m n rv = Inr rv2"
    using lt one by (simp add: mod_step_def rv2_def Let_def)
  have len2: "n \<le> length rv2" using lt by (simp add: rv2_def)
  have "drop n rv2 = drop n (rv[n := 0])"
    by (simp add: rv2_def drop_update_cancel)
  also have "\<dots> = 0 # drop (Suc n) rv"
    using lt by (simp add: drop_update_swap[symmetric] Cons_nth_drop_Suc[symmetric])
  finally have dr: "drop n rv2 = 0 # drop (Suc n) rv" .
  have "for_loop (mod_step a m) (rev [0..<n]) rv2 = Inr (replicate n 0 @ drop n rv2)"
    using Suc.prems len2 by (intro Suc.IH) simp_all
  then show ?case
    using step dr by (simp add: replicate_app_Cons_same)
qed

lemma bigint_mod_ones:
  assumes "bi_size a = 2048" and "length (bi_value a) = 2048" and "\<not> all_zero (bi_value a)"
    and "bi_value m = replicate 2048 1"
  shows "bigint_mod a m = Inr Zero"
proof -
  have "bi_value m ! 0 \<noteq> replicate 2048 (0::int) ! 0" using assms(4) by simp
  then have mnz: "bi_value m \<noteq> replicate 2048 0" by metis
  have "for_loop (mod_step a m) (rev [0..<2048]) (bi_value a)
          = Inr (replicate 2048 0 @ drop 2048 (bi_value a))"
    using assms(2,4) by (intro mod_loop_ones) simp_all
  then have "for_loop (mod_step a m) (rev [0..<nat (bi_size a)]) (bi_value a)
          = Inr (replicate 2048 0)"
    using assms(1,2) by simp
  then show ?thesis
    using mnz assms(3) by (simp add: bigint_mod_unfold Zero_def)
qed

lemma bigint_gcd_ones:
  assumes "bi_size a = 2048" and "length (bi_value a) = 2048" and "\<not> all_zero (bi_value a)"
    and "bi_value m = replicate 2048 1"
  shows "bigint_gcd a m = Some (Inr m) \<and> euclid_run 1 a m (Inr m)"
proof -
  have "bi_value m ! 0 \<noteq> replicate 2048 (0::int) ! 0" using assms(4) by simp
  then have "bi_value m \<noteq> replicate 2048 0" by metis
  then have mnz: "\<not> bigint_eq m Zero" by (simp add: bigint_eq_def)
  have md: "bigint_mod a m = Inr Zero" using assms by (rule bigint_mod_ones)
  have z: "bigint_eq Zero Zero" by (simp add: bigint_eq_def)
  have "gcd_loop a m = gcd_loop m Zero" using mnz md by (rule gcd_loop_iter)
  also have "\<dots> = Some (Inr m)" using z by (rule gcd_loop_stop)
  finally have "bigint_gcd a m = Some (Inr m)" using mnz by (simp add: bigint_gcd_def)
  moreover have "euclid_run (Suc 0) a m (Inr m)"
    using mnz md euclid_stop[OF z, of m] by (rule euclid_iter)
  ultimately show ?thesis by simp
qed

section \<open>The gcd with a zero of another capacity\<close>

lemma bigint_gcd_matching_zero_raises:
  assumes "size_ok a" and "\<not> all_zero (bi_value a)" and "bi_size a \<noteq> 2048"
    and "bi_value z = replicate (nat (bi_size a)) 0"
  shows "bigint_gcd a z = Some (Inl ZeroModulus)"
proof -
  from size_ok_nonzero_positive[OF assms(1,2)]
  have pos: "0 < bi_size a" and la: "nat (bi_size a) = length (bi_value a)" by simp_all
  have "length (bi_value z) \<noteq> 2048" using assms(3,4) pos by simp
  then have znz: "bi_value z \<noteq> replicate 2048 0" by (rule not_zeros_by_length)
  then have ne: "\<not> bigint_eq z Zero" by (simp add: bigint_eq_def)
  have "bigint_mod a z = Inl ZeroModulus"
    using assms(2) znz pos la assms(4) by (intro bigint_mod_top_digit_zero) simp_all
  with ne have "gcd_loop a z = Some (Inl ZeroModulus)" by (rule gcd_loop_abort)
  with ne show ?thesis by (simp add: bigint_gcd_def)
qed

lemma bigint_gcd_of_zero_operand:
  assumes "size_ok a" and "all_zero (bi_value a)"
    and "bi_value z = replicate (nat (bi_size a)) 0"
  shows "\<exists>r. bigint_gcd a z = Some (Inr r) \<and> bigint_eq r a"
proof (cases "bigint_eq z Zero")
  case True
  then show ?thesis by (simp add: bigint_gcd_def bigint_eq_def)
next
  case False
  then have znz: "bi_value z \<noteq> replicate 2048 0" by (simp add: bigint_eq_def)
  have "length (bi_value a) = nat (bi_size a)"
    using assms(1) unfolding size_ok_def by linarith
  then have "bi_value a = bi_value z"
    using assms(2,3) all_zero_iff[of "bi_value a"] by simp
  then have eq: "bigint_eq z a" by (simp add: bigint_eq_def)
  have md: "bigint_mod a z = Inr Zero"
    using znz assms(2) by (simp add: bigint_mod_unfold)
  have "gcd_loop a z = gcd_loop z Zero" using False md by (rule gcd_loop_iter)
  also have "\<dots> = Some (Inr z)" by (rule gcd_loop_stop) (simp add: bigint_eq_def)
  finally have "bigint_gcd a z = Some (Inr z)" using False by (simp add: bigint_gcd_def)
  with eq show ?thesis by simp
qed

section \<open>Properties of the engine\<close>

text \<open>
  Claim C1 says that \<open>a * Zero\<close> returns the all-zero value. At the default capacity the
  product of \<open>BigInt()\<close> with itself raises \<open>IndexError\<close> instead: in row \<open>i = 0\<close> the
  column \<open>j = 2047\<close> adds a carry at position 2048 of a list of 2048 digits.
\<close>

theorem mul_by_zero_raises:
  "BigInt_default = Inr Zero \<and> bigint_mul Zero Zero = Inl IndexError"
  by (simp add: bigint_mul_overflow)

text \<open>
  Claim C2 says that for the sample operands 12345 and 67890 and the modulus 100, all of
  the default capacity in base 10, \<open>mod_add\<close> and \<open>mod_sub\<close> return the sum and the
  difference reduced modulo 100. Both raise the zero-modulus \<open>ValueError\<close> instead: the
  sum and the difference are not zero, and the reduction starts by dividing by digit 2047
  of the modulus, which is zero.
\<close>

theorem sample_mod_add_sub_raise:
  "BigInt_of 12345 = Inr (padded [5, 4, 3, 2, 1])
   \<and> BigInt_of 67890 = Inr (padded [0, 9, 8, 7, 6])
   \<and> BigInt_of 100 = Inr (padded [0, 0, 1])
   \<and> mod_add (padded [5, 4, 3, 2, 1]) (padded [0, 9, 8, 7, 6]) (padded [0, 0, 1]) = Inl ZeroModulus
   \<and> mod_sub (padded [5, 4, 3, 2, 1]) (padded [0, 9, 8, 7, 6]) (padded [0, 0, 1]) = Inl ZeroModulus"
proof -
  let ?a = "padded [5, 4, 3, 2, 1]" and ?b = "padded [0, 9, 8, 7, 6]" and ?m = "padded [0, 0, 1]"
  have va: "digits_val 10 (bi_value ?a) = 12345" and vb: "digits_val 10 (bi_value ?b) = 67890"
    by (simp_all add: digits_val_append)
  have base: "0 < bi_base ?a" and sz: "bi_size ?a \<le> 2048"
    and la: "int (length (bi_value ?a)) = bi_size ?a"
    and lb: "int (length (bi_value ?b)) = bi_size ?a"
    and da: "digits_in (bi_base ?a) (bi_value ?a)" and db: "digits_in (bi_base ?a) (bi_value ?b)"
    by simp_all
  from bigint_add_value[OF base sz la lb]
  obtain r where r: "bigint_add ?a ?b = Inr r"
    and rv: "digits_val (bi_base ?a) (bi_value r)
              = (digits_val (bi_base ?a) (bi_value ?a) + digits_val (bi_base ?a) (bi_value ?b))
                mod bi_base ?a ^ nat (bi_size ?a)"
    by blast
  have "\<not> all_zero (bi_value r)"
    by (rule low_value_not_all_zero[OF rv, of 5]) (simp_all add: digits_val_append)
  then have add: "bigint_mod r ?m = Inl ZeroModulus"
    using bigint_add_shape[OF r] by (intro mod_100_fails) simp_all
  from bigint_sub_value[OF base sz la lb da db]
  obtain s where s: "bigint_sub ?a ?b = Inr s"
    and sv: "digits_val (bi_base ?a) (bi_value s)
              = (digits_val (bi_base ?a) (bi_value ?a) - digits_val (bi_base ?a) (bi_value ?b))
                mod bi_base ?a ^ nat (bi_size ?a)"
    by blast
  have "\<not> all_zero (bi_value s)"
    by (rule negative_value_not_all_zero[OF sv, of 5]) (simp_all add: digits_val_append)
  then have sub: "bigint_mod s ?m = Inl ZeroModulus"
    using bigint_sub_shape[OF s] by (intro mod_100_fails) simp_all
  show ?thesis
    using add sub r s by (simp add: sample_a sample_b sample_modulus mod_add_def mod_sub_def)
qed

text \<open>
  Claim C3, as stated, fails in four places. \<open>BigInt("67890", base=10)\<close> has five digits
  while its \<open>size\<close> is 2048. \<open>BigInt(5, size=-1)\<close> has no digit while its \<open>size\<close> is -1.
  The remainder of the one-digit values 4 and 3 keeps one digit while its \<open>size\<close> is 2048.
  \<open>BigInt() >> 1\<close> has 2047 digits while its \<open>size\<close> is 2048.
\<close>

theorem from_str_keeps_string_length:
  "bigint_init (PyStr ''67890'') 10 2048
     = Inr \<lparr>bi_size = 2048, bi_base = 10, bi_value = [0, 9, 8, 7, 6]\<rparr>
   \<and> \<not> size_ok \<lparr>bi_size = 2048, bi_base = 10, bi_value = [0, 9, 8, 7, 6]\<rparr>
   \<and> bigint_init (PyInt 5) 10 (- 1) = Inr \<lparr>bi_size = - 1, bi_base = 10, bi_value = []\<rparr>
   \<and> \<not> size_ok \<lparr>bi_size = - 1, bi_base = 10, bi_value = []\<rparr>
   \<and> size_ok \<lparr>bi_size = 1, bi_base = 10, bi_value = [4]\<rparr>
   \<and> size_ok \<lparr>bi_size = 1, bi_base = 10, bi_value = [3]\<rparr>
   \<and> bigint_mod \<lparr>bi_size = 1, bi_base = 10, bi_value = [4]\<rparr>
                 \<lparr>bi_size = 1, bi_base = 10, bi_value = [3]\<rparr>
       = Inr \<lparr>bi_size = 2048, bi_base = 10, bi_value = [1]\<rparr>
   \<and> \<not> size_ok \<lparr>bi_size = 2048, bi_base = 10, bi_value = [1]\<rparr>
   \<and> bigint_rshift Zero 1 = Inr \<lparr>bi_size = 2048, bi_base = 10, bi_value = replicate 2047 0\<rparr>
   \<and> \<not> size_ok \<lparr>bi_size = 2048, bi_base = 10, bi_value = replicate 2047 0\<rparr>"
proof -
  have s: "bigint_init (PyStr ''67890'') 10 2048
     = Inr \<lparr>bi_size = 2048, bi_base = 10, bi_value = [0, 9, 8, 7, 6]\<rparr>"
    by (simp add: bigint_init_def from_str_def py_int_def char_digit_def)
  have i: "bigint_init (PyInt 5) 10 (- 1) = Inr \<lparr>bi_size = - 1, bi_base = 10, bi_value = []\<rparr>"
    by (simp add: bigint_init_def from_int_def)
  have m: "bigint_mod \<lparr>bi_size = 1, bi_base = 10, bi_value = [4]\<rparr>
                 \<lparr>bi_size = 1, bi_base = 10, bi_value = [3]\<rparr>
       = Inr \<lparr>bi_size = 2048, bi_base = 10, bi_value = [1]\<rparr>"
    by (simp add: bigint_mod_unfold not_zeros_by_length mod_step_def)
  have r: "bigint_rshift Zero 1
       = Inr \<lparr>bi_size = 2048, bi_base = 10, bi_value = replicate 2047 0\<rparr>"
    by (simp add: bigint_rshift_def py_slice_from_def)
  show ?thesis
    unfolding s i m r by (simp add: size_ok_def)
qed

text \<open>
  Claim C3, amended. A value has exactly \<open>size\<close> digits when it is returned by the integer
  constructor for a \<open>size\<close> that is not negative, by \<open>+\<close>, \<open>-\<close> or \<open>*\<close>, by \<open>%\<close> on a left
  operand that has 2048 digits or is all zeros, by \<open>gcd\<close> on operands that have \<open>size\<close>
  digits themselves, or by \<open>lcm\<close>, \<open>mod_add\<close>, \<open>mod_sub\<close> or \<open>mod_pow\<close>. The string and list
  constructors keep the length of their argument and the declared \<open>size\<close>, and \<open>>>\<close>
  returns the sliced digits with \<open>size\<close> 2048.
\<close>

theorem results_have_size_digits:
  "(0 \<le> sz \<and> bigint_init (PyInt n) base sz = Inr r \<longrightarrow> size_ok r)
   \<and> (bigint_add a b = Inr r \<longrightarrow> size_ok r)
   \<and> (bigint_sub a b = Inr r \<longrightarrow> size_ok r)
   \<and> (bigint_mul a b = Inr r \<longrightarrow> size_ok r)
   \<and> ((length (bi_value a) = 2048 \<or> all_zero (bi_value a)) \<and> bigint_mod a m = Inr r
        \<longrightarrow> size_ok r)
   \<and> (size_ok a \<and> size_ok b \<and> bigint_gcd a b = Some (Inr r) \<longrightarrow> size_ok r)
   \<and> (bigint_lcm a b = Some (Inr r) \<longrightarrow> size_ok r)
   \<and> (mod_add a b m = Inr r \<longrightarrow> size_ok r)
   \<and> (mod_sub a b m = Inr r \<longrightarrow> size_ok r)
   \<and> (mod_pow a e m = Inr r \<longrightarrow> size_ok r)
   \<and> (bigint_init (PyStr s) base sz = Inr r \<longrightarrow> length (bi_value r) = length s \<and> bi_size r = sz)
   \<and> (bigint_init (PyList l) base sz = Inr r \<longrightarrow> length (bi_value r) = length l \<and> bi_size r = sz)
   \<and> (bigint_rshift a k = Inr r
        \<longrightarrow> bi_value r = py_slice_from (bi_value a) k \<and> bi_size r = 2048)"
proof -
  have c1: "0 \<le> sz \<and> bigint_init (PyInt n) base sz = Inr r \<longrightarrow> size_ok r"
    using bigint_init_int_size[of n base sz r] by (auto simp: size_ok_def)
  have c2: "bigint_add a b = Inr r \<longrightarrow> size_ok r"
    using bigint_add_shape[of a b r] by (simp add: size_ok_def)
  have c3: "bigint_sub a b = Inr r \<longrightarrow> size_ok r"
    using bigint_sub_shape[of a b r] by (simp add: size_ok_def)
  have c4: "bigint_mul a b = Inr r \<longrightarrow> size_ok r"
    using bigint_mul_shape[of a b r] by (simp add: size_ok_def)
  have c5: "(length (bi_value a) = 2048 \<or> all_zero (bi_value a)) \<and> bigint_mod a m = Inr r
        \<longrightarrow> size_ok r"
    using bigint_mod_size_ok[of a m r] bigint_mod_of_zero[of a m r]
    by (auto simp: size_ok_def)
  have c6: "size_ok a \<and> size_ok b \<and> bigint_gcd a b = Some (Inr r) \<longrightarrow> size_ok r"
    using bigint_gcd_size_ok[of a b r] by blast
  have c7: "bigint_lcm a b = Some (Inr r) \<longrightarrow> size_ok r"
    using bigint_lcm_result[of a b r] by (auto simp: size_ok_def)
  have c8: "mod_add a b m = Inr r \<longrightarrow> size_ok r"
    using mod_add_shape[of a b m r] by (simp add: size_ok_def)
  have c9: "mod_sub a b m = Inr r \<longrightarrow> size_ok r"
    using mod_sub_shape[of a b m r] by (simp add: size_ok_def)
  have c10: "mod_pow a e m = Inr r \<longrightarrow> size_ok r"
    using mod_pow_result[of a e m r] by (auto simp: size_ok_def)
  have c11: "bigint_init (PyStr s) base sz = Inr r \<longrightarrow> length (bi_value r) = length s \<and> bi_size r = sz"
    using bigint_init_str_shape[of s base sz r] by simp
  have c12: "bigint_init (PyList l) base sz = Inr r \<longrightarrow> length (bi_value r) = length l \<and> bi_size r = sz"
    by auto
  have c13: "bigint_rshift a k = Inr r
        \<longrightarrow> bi_value r = py_slice_from (bi_value a) k \<and> bi_size r = 2048"
    using bigint_rshift_shape[of a k r] by simp
  from c1 c2 c3 c4 c5 c6 c7 c8 c9 c10 c11 c12 c13 show ?thesis by blast
qed

text \<open>
  Claim C3, amended, at inputs for which every operation named there returns a value: the
  sample operands 12345 and 67890, whose sum and difference are reduced, like 12345
  itself, by the modulus whose 2048 digits are all 1, and small values for the rest.
\<close>

theorem results_have_size_digits_witness:
  "(\<exists>r. bigint_init (PyInt 5) 10 3 = Inr r \<and> size_ok r)
   \<and> (\<exists>r. bigint_add (padded [5, 4, 3, 2, 1]) (padded [0, 9, 8, 7, 6]) = Inr r \<and> size_ok r)
   \<and> (\<exists>r. bigint_sub (padded [5, 4, 3, 2, 1]) (padded [0, 9, 8, 7, 6]) = Inr r \<and> size_ok r)
   \<and> (\<exists>r. bigint_mul \<lparr>bi_size = 1, bi_base = 10, bi_value = [2]\<rparr>
                      \<lparr>bi_size = 1, bi_base = 10, bi_value = [3]\<rparr> = Inr r \<and> size_ok r)
   \<and> length (bi_value (padded [5, 4, 3, 2, 1])) = 2048
   \<and> bigint_mod (padded [5, 4, 3, 2, 1])
                 \<lparr>bi_size = 2048, bi_base = 10, bi_value = replicate 2048 1\<rparr> = Inr Zero
   \<and> size_ok Zero
   \<and> size_ok (padded [5, 4, 3, 2, 1])
   \<and> size_ok \<lparr>bi_size = 2048, bi_base = 10, bi_value = replicate 2048 1\<rparr>
   \<and> bigint_gcd (padded [5, 4, 3, 2, 1])
                 \<lparr>bi_size = 2048, bi_base = 10, bi_value = replicate 2048 1\<rparr>
       = Some (Inr \<lparr>bi_size = 2048, bi_base = 10, bi_value = replicate 2048 1\<rparr>)
   \<and> bigint_lcm Zero Zero = Some (Inr Zero)
   \<and> mod_add (padded [5, 4, 3, 2, 1]) (padded [0, 9, 8, 7, 6])
              \<lparr>bi_size = 2048, bi_base = 10, bi_value = replicate 2048 1\<rparr> = Inr Zero
   \<and> mod_sub (padded [5, 4, 3, 2, 1]) (padded [0, 9, 8, 7, 6])
              \<lparr>bi_size = 2048, bi_base = 10, bi_value = replicate 2048 1\<rparr> = Inr Zero
   \<and> mod_pow (padded [5, 4, 3, 2, 1]) 0
              \<lparr>bi_size = 2048, bi_base = 10, bi_value = replicate 2048 1\<rparr> = Inr One
   \<and> size_ok One
   \<and> bigint_init (PyStr ''67890'') 10 2048
       = Inr \<lparr>bi_size = 2048, bi_base = 10, bi_value = [0, 9, 8, 7, 6]\<rparr>
   \<and> length [0, 9, 8, 7, 6 :: int] = length ''67890''
   \<and> bigint_init (PyList [1, 2]) 10 2048 = Inr \<lparr>bi_size = 2048, bi_base = 10, bi_value = [1, 2]\<rparr>
   \<and> length [1, 2 :: int] = 2
   \<and> (\<exists>r. bigint_rshift \<lparr>bi_size = 3, bi_base = 10, bi_value = [1, 2, 3]\<rparr> 1 = Inr r
          \<and> bi_value r = [2, 3] \<and> bi_size r = 2048)"
proof -
  let ?A = "padded [5, 4, 3, 2, 1]" and ?B = "padded [0, 9, 8, 7, 6]"
  let ?M = "\<lparr>bi_size = 2048, bi_base = 10, bi_value = replicate 2048 (1::int)\<rparr>"
  let ?x = "\<lparr>bi_size = 1, bi_base = 10, bi_value = [2]\<rparr>"
  let ?y = "\<lparr>bi_size = 1, bi_base = 10, bi_value = [3]\<rparr>"
  have T: "(0 \<le> (3::int) \<and> bigint_init (PyInt 5) 10 3 = Inr r \<longrightarrow> size_ok r)
      \<and> (bigint_add ?A ?B = Inr r \<longrightarrow> size_ok r)
      \<and> (bigint_sub ?A ?B = Inr r \<longrightarrow> size_ok r)" for r
    using results_have_size_digits[of 3 5 10 r ?A ?B ?M 0 "[]" "[]" 0] by blast
  have Tm: "bigint_mul ?x ?y = Inr r \<longrightarrow> size_ok r" for r
    using results_have_size_digits[of 3 5 10 r ?x ?y ?M 0 "[]" "[]" 0] by blast
  have base: "0 < bi_base ?A" and sz: "bi_size ?A \<le> 2048"
    and la: "int (length (bi_value ?A)) = bi_size ?A"
    and lb: "int (length (bi_value ?B)) = bi_size ?A"
    and da: "digits_in (bi_base ?A) (bi_value ?A)" and db: "digits_in (bi_base ?A) (bi_value ?B)"
    by simp_all
  from bigint_add_value[OF base sz la lb]
  obtain ra where ra: "bigint_add ?A ?B = Inr ra"
    and rav: "digits_val (bi_base ?A) (bi_value ra)
              = (digits_val (bi_base ?A) (bi_value ?A) + digits_val (bi_base ?A) (bi_value ?B))
                mod bi_base ?A ^ nat (bi_size ?A)"
    by blast
  from bigint_sub_value[OF base sz la lb da db]
  obtain rs where rs: "bigint_sub ?A ?B = Inr rs"
    and rsv: "digits_val (bi_base ?A) (bi_value rs)
              = (digits_val (bi_base ?A) (bi_value ?A) - digits_val (bi_base ?A) (bi_value ?B))
                mod bi_base ?A ^ nat (bi_size ?A)"
    by blast
  have ranz: "\<not> all_zero (bi_value ra)"
    by (rule low_value_not_all_zero[OF rav, of 5]) (simp_all add: digits_val_append)
  have rsnz: "\<not> all_zero (bi_value rs)"
    by (rule negative_value_not_all_zero[OF rsv, of 5]) (simp_all add: digits_val_append)
  have Anz: "\<not> all_zero (bi_value ?A)" by simp
  have "\<exists>r. bigint_init (PyInt 5) 10 3 = Inr r"
    using bigint_init_int[of 10 5 3] by simp
  with T have w1: "\<exists>r. bigint_init (PyInt 5) 10 3 = Inr r \<and> size_ok r"
    by auto
  have w2: "\<exists>r. bigint_add ?A ?B = Inr r \<and> size_ok r"
    using ra T by blast
  have w3: "\<exists>r. bigint_sub ?A ?B = Inr r \<and> size_ok r"
    using rs T by blast
  have "\<exists>r. bigint_mul ?x ?y = Inr r"
    by (simp add: bigint_mul_def mul_row_def mul_step_def Let_def)
  with Tm have w4: "\<exists>r. bigint_mul ?x ?y = Inr r \<and> size_ok r"
    by blast
  have w5: "bigint_mod ?A ?M = Inr Zero"
    using Anz by (intro bigint_mod_ones) simp_all
  have w6: "bigint_gcd ?A ?M = Some (Inr ?M)"
    using Anz bigint_gcd_ones[of ?A ?M] by simp
  have w7: "bigint_lcm Zero Zero = Some (Inr Zero)"
    by (simp add: bigint_lcm_def bigint_gcd_def bigint_eq_def)
  have "bigint_mod ra ?M = Inr Zero"
    using bigint_add_shape[OF ra] ranz by (intro bigint_mod_ones) simp_all
  then have w8: "mod_add ?A ?B ?M = Inr Zero"
    using ra by (simp add: mod_add_def)
  have "bigint_mod rs ?M = Inr Zero"
    using bigint_sub_shape[OF rs] rsnz by (intro bigint_mod_ones) simp_all
  then have w9: "mod_sub ?A ?B ?M = Inr Zero"
    using rs by (simp add: mod_sub_def)
  have "mod_pow_loop ?M 0 One Zero = Inr One"
    by (subst mod_pow_loop_default) simp_all
  then have w10: "mod_pow ?A 0 ?M = Inr One"
    using w5 by (simp add: mod_pow_def)
  have w11: "bigint_init (PyStr ''67890'') 10 2048
         = Inr \<lparr>bi_size = 2048, bi_base = 10, bi_value = [0, 9, 8, 7, 6]\<rparr>"
    by (simp add: bigint_init_def from_str_def py_int_def char_digit_def)
  have w13: "\<exists>r. bigint_rshift \<lparr>bi_size = 3, bi_base = 10, bi_value = [1, 2, 3]\<rparr> 1 = Inr r
          \<and> bi_value r = [2, 3] \<and> bi_size r = 2048"
    by (simp add: bigint_rshift_def py_slice_from_def)
  have sizes: "size_ok Zero" "size_ok ?A" "size_ok ?M" "size_ok One"
    "length (bi_value ?A) = 2048"
    by (simp_all add: size_ok_def)
  show ?thesis
    using w1 w2 w3 w4 w5 w6 w7 w8 w9 w10 w11 w13 sizes by simp
qed

text \<open>
  Claim C4 says that \<open>mod_pow\<close> with exponent 0 returns \<open>BigInt(1)\<close> for every modulus that
  is not all zeros. For the operand 12345 and the modulus 100 it raises the zero-modulus
  \<open>ValueError\<close> instead: \<open>self % mod\<close> is evaluated before the loop and fails.
\<close>

theorem sample_mod_pow_zero_raises:
  "BigInt_of 12345 = Inr (padded [5, 4, 3, 2, 1])
   \<and> BigInt_of 100 = Inr (padded [0, 0, 1])
   \<and> \<not> all_zero (bi_value (padded [0, 0, 1]))
   \<and> mod_pow (padded [5, 4, 3, 2, 1]) 0 (padded [0, 0, 1]) = Inl ZeroModulus"
proof -
  have "bigint_mod (padded [5, 4, 3, 2, 1]) (padded [0, 0, 1]) = Inl ZeroModulus"
    by (rule mod_100_fails) simp_all
  then show ?thesis
    by (simp add: sample_a sample_modulus mod_pow_def)
qed

text \<open>
  Claim C5, as stated, fails for a capacity other than 2048: there the all-zero modulus of
  matching capacity differs from \<open>BigInt()\<close>, and for the all-zero \<open>x\<close> of size 1 the
  operation returns \<open>BigInt()\<close> instead of raising.
\<close>

theorem mod_zero_small_capacity_returns:
  "bigint_mod \<lparr>bi_size = 1, bi_base = 10, bi_value = [0]\<rparr>
              \<lparr>bi_size = 1, bi_base = 10, bi_value = [0]\<rparr> = Inr Zero"
  by (simp add: bigint_mod_unfold not_zeros_by_length)

text \<open>
  Claim C5, amended. Let \<open>x\<close> have a digit list of length \<open>size\<close> and let \<open>z\<close> be all zeros
  with the same number of digits. If \<open>size\<close> is the default 2048, or if \<open>x\<close> has a nonzero
  digit, then \<open>x % z\<close> raises the zero-modulus \<open>ValueError\<close>.
\<close>

theorem mod_by_zero_fails:
  assumes "size_ok x" and "bi_value z = replicate (nat (bi_size x)) 0"
    and "bi_size x = 2048 \<or> \<not> all_zero (bi_value x)"
  shows "bigint_mod x z = Inl ZeroModulus"
proof (cases "bi_size x = 2048")
  case True
  with assms(2) show ?thesis by (simp add: bigint_mod_zero_modulus)
next
  case False
  with assms(3) have nz: "\<not> all_zero (bi_value x)" by simp
  then have "bi_value x \<noteq> []" by auto
  then have "0 < length (bi_value x)" by simp
  with assms(1) have pos: "0 < bi_size x" unfolding size_ok_def by linarith
  have "bi_value z \<noteq> replicate 2048 0"
    using False assms(2) by (intro not_zeros_by_length) simp
  then show ?thesis
    using nz pos assms(1,2) by (intro bigint_mod_top_digit_zero) (simp_all add: size_ok_def)
qed

text \<open>
  Claim C5, amended, at \<open>x = BigInt()\<close> with the default capacity and at \<open>x = 3\<close> with
  capacity 1.
\<close>

theorem mod_by_zero_fails_witness:
  "size_ok Zero \<and> bi_value Zero = replicate (nat (bi_size Zero)) 0
   \<and> bigint_mod Zero Zero = Inl ZeroModulus
   \<and> size_ok \<lparr>bi_size = 1, bi_base = 10, bi_value = [3]\<rparr>
   \<and> \<not> all_zero [3]
   \<and> bigint_mod \<lparr>bi_size = 1, bi_base = 10, bi_value = [3]\<rparr>
                 \<lparr>bi_size = 1, bi_base = 10, bi_value = [0]\<rparr> = Inl ZeroModulus"
  using mod_by_zero_fails[of Zero Zero]
    mod_by_zero_fails[of "\<lparr>bi_size = 1, bi_base = 10, bi_value = [3]\<rparr>"
                         "\<lparr>bi_size = 1, bi_base = 10, bi_value = [0]\<rparr>"]
  by (simp add: size_ok_def)

text \<open>
  Claim C6 says that \<open>lcm\<close> of any value and zero returns zero. For \<open>BigInt(1)\<close> and
  \<open>BigInt()\<close> the gcd is \<open>BigInt(1)\<close>, which is not zero, so the product \<open>self * other\<close> is
  evaluated, and it raises \<open>IndexError\<close>.
\<close>

theorem lcm_one_zero_raises:
  "BigInt_of 1 = Inr One \<and> BigInt_default = Inr Zero
   \<and> bigint_lcm One Zero = Some (Inl IndexError)"
proof -
  have "bigint_gcd One Zero = Some (Inr One)"
    by (simp add: bigint_gcd_def bigint_eq_def)
  moreover have "bigint_mul One Zero = Inl IndexError"
    by (rule bigint_mul_overflow) simp_all
  ultimately show ?thesis
    using One_not_Zero by (simp add: bigint_lcm_def)
qed

text \<open>
  Claim C7, as stated, fails for a capacity other than 2048, where the zero of matching
  capacity is not equal to \<open>BigInt()\<close>: the gcd of the one-digit values 5 and 0 enters the
  loop and raises the zero-modulus \<open>ValueError\<close> instead of returning 5.
\<close>

theorem gcd_zero_small_capacity_raises:
  "size_ok \<lparr>bi_size = 1, bi_base = 10, bi_value = [5]\<rparr>
   \<and> size_ok \<lparr>bi_size = 1, bi_base = 10, bi_value = [0]\<rparr>
   \<and> bigint_gcd \<lparr>bi_size = 1, bi_base = 10, bi_value = [5]\<rparr>
                 \<lparr>bi_size = 1, bi_base = 10, bi_value = [0]\<rparr> = Some (Inl ZeroModulus)"
  using bigint_gcd_matching_zero_raises
    [of "\<lparr>bi_size = 1, bi_base = 10, bi_value = [5]\<rparr>"
        "\<lparr>bi_size = 1, bi_base = 10, bi_value = [0]\<rparr>"]
  by (simp add: size_ok_def)

text \<open>
  Claim C7, amended. Let \<open>a\<close> have \<open>size\<close> digits and let \<open>z\<close> be all zeros with the same
  number of digits. If \<open>size\<close> is the default 2048, \<open>gcd\<close> of \<open>a\<close> and \<open>z\<close> returns \<open>a\<close> at once;
  if \<open>a\<close> is all zeros, it returns a value that \<open>==\<close> identifies with \<open>a\<close>. For all values
  \<open>a\<close> and \<open>b\<close>, \<open>gcd\<close> returns: the loop \<open>a, b = b, a % b\<close> ends after finitely many rounds,
  either when \<open>b\<close> equals \<open>BigInt()\<close>, with the last \<open>a\<close>, or with the exception of one
  failing \<open>a % b\<close>.
\<close>

theorem gcd_terminates:
  "(size_ok a \<and> bi_size a = 2048 \<and> bi_value z = replicate (nat (bi_size a)) 0
      \<longrightarrow> bigint_gcd a z = Some (Inr a))
   \<and> (size_ok a \<and> all_zero (bi_value a) \<and> bi_value z = replicate (nat (bi_size a)) 0
      \<longrightarrow> (\<exists>r. bigint_gcd a z = Some (Inr r) \<and> bigint_eq r a))
   \<and> (\<exists>n res. bigint_gcd a b = Some res \<and> euclid_run n a b res)"
proof (intro conjI)
  show "size_ok a \<and> bi_size a = 2048 \<and> bi_value z = replicate (nat (bi_size a)) 0
      \<longrightarrow> bigint_gcd a z = Some (Inr a)"
    by (simp add: bigint_gcd_def bigint_eq_def)
  show "size_ok a \<and> all_zero (bi_value a) \<and> bi_value z = replicate (nat (bi_size a)) 0
      \<longrightarrow> (\<exists>r. bigint_gcd a z = Some (Inr r) \<and> bigint_eq r a)"
    using bigint_gcd_of_zero_operand[of a z] by blast
  show "\<exists>n res. bigint_gcd a b = Some res \<and> euclid_run n a b res"
    by (rule bigint_gcd_run)
qed

text \<open>
  Claim C7, amended, at \<open>a = 12345\<close> with 2048 digits in base 10: with the zero of 2048
  digits the gcd is \<open>a\<close>; with the value whose 2048 digits are all 1 the loop makes one
  round, in which \<open>a % b\<close> is zero, and returns that value. At the one-digit zero the gcd
  with itself is a one-digit zero.
\<close>

theorem gcd_terminates_witness:
  "size_ok (padded [5, 4, 3, 2, 1]) \<and> bi_size (padded [5, 4, 3, 2, 1]) = 2048
   \<and> bi_value Zero = replicate (nat (bi_size (padded [5, 4, 3, 2, 1]))) 0
   \<and> bigint_gcd (padded [5, 4, 3, 2, 1]) Zero = Some (Inr (padded [5, 4, 3, 2, 1]))
   \<and> size_ok \<lparr>bi_size = 1, bi_base = 10, bi_value = [0]\<rparr>
   \<and> all_zero (bi_value \<lparr>bi_size = 1, bi_base = 10, bi_value = [0]\<rparr>)
   \<and> (\<exists>r. bigint_gcd \<lparr>bi_size = 1, bi_base = 10, bi_value = [0]\<rparr>
                      \<lparr>bi_size = 1, bi_base = 10, bi_value = [0]\<rparr> = Some (Inr r)
          \<and> bigint_eq r \<lparr>bi_size = 1, bi_base = 10, bi_value = [0]\<rparr>)
   \<and> bigint_gcd (padded [5, 4, 3, 2, 1])
                 \<lparr>bi_size = 2048, bi_base = 10, bi_value = replicate 2048 1\<rparr>
       = Some (Inr \<lparr>bi_size = 2048, bi_base = 10, bi_value = replicate 2048 1\<rparr>)
   \<and> euclid_run 1 (padded [5, 4, 3, 2, 1])
                   \<lparr>bi_size = 2048, bi_base = 10, bi_value = replicate 2048 1\<rparr>
                   (Inr \<lparr>bi_size = 2048, bi_base = 10, bi_value = replicate 2048 1\<rparr>)
   \<and> (\<exists>n res. bigint_gcd (padded [5, 4, 3, 2, 1])
                  \<lparr>bi_size = 2048, bi_base = 10, bi_value = replicate 2048 1\<rparr> = Some res
          \<and> euclid_run n (padded [5, 4, 3, 2, 1])
                  \<lparr>bi_size = 2048, bi_base = 10, bi_value = replicate 2048 1\<rparr> res)"
proof -
  let ?A = "padded [5, 4, 3, 2, 1]"
  let ?M = "\<lparr>bi_size = 2048, bi_base = 10, bi_value = replicate 2048 (1::int)\<rparr>"
  have hyp: "size_ok ?A \<and> bi_size ?A = 2048 \<and> bi_value Zero = replicate (nat (bi_size ?A)) 0"
    by (simp add: size_ok_def)
  from gcd_terminates[of ?A Zero ?M] hyp
  have zero: "bigint_gcd ?A Zero = Some (Inr ?A)"
    and run: "\<exists>n res. bigint_gcd ?A ?M = Some res \<and> euclid_run n ?A ?M res"
    by blast+
  let ?z = "\<lparr>bi_size = 1, bi_base = 10, bi_value = [0::int]\<rparr>"
  have hyp0: "size_ok ?z \<and> all_zero (bi_value ?z) \<and> bi_value ?z = replicate (nat (bi_size ?z)) 0"
    by (simp add: size_ok_def)
  from gcd_terminates[of ?z ?z ?z] hyp0
  have small: "\<exists>r. bigint_gcd ?z ?z = Some (Inr r) \<and> bigint_eq r ?z"
    by blast
  have ones: "bigint_gcd ?A ?M = Some (Inr ?M) \<and> euclid_run 1 ?A ?M (Inr ?M)"
    by (rule bigint_gcd_ones) simp_all
  from hyp hyp0 zero small run ones show ?thesis by blast
qed

text \<open>
  Claim C8, as stated, fails for a capacity above 2048, where the result list of 2048
  digits is too short and \<open>__add__\<close> raises \<open>IndexError\<close>; and its digit bound fails for
  capacity 0 with base 0, where the result consists of 2048 zeros.
\<close>

theorem add_large_capacity_raises:
  "bigint_add \<lparr>bi_size = 2049, bi_base = 10, bi_value = replicate 2049 0\<rparr>
              \<lparr>bi_size = 2049, bi_base = 10, bi_value = replicate 2049 0\<rparr> = Inl IndexError
   \<and> bigint_add \<lparr>bi_size = 0, bi_base = 0, bi_value = []\<rparr>
                 \<lparr>bi_size = 0, bi_base = 0, bi_value = []\<rparr> = Inr Zero
   \<and> \<not> digits_in 0 (bi_value Zero)"
proof -
  have "bigint_add \<lparr>bi_size = 2049, bi_base = 10, bi_value = replicate 2049 0\<rparr>
              \<lparr>bi_size = 2049, bi_base = 10, bi_value = replicate 2049 0\<rparr> = Inl IndexError"
    by (rule bigint_add_overflow) simp_all
  moreover have "bigint_add \<lparr>bi_size = 0, bi_base = 0, bi_value = []\<rparr>
                 \<lparr>bi_size = 0, bi_base = 0, bi_value = []\<rparr> = Inr Zero"
    by (simp add: bigint_add_def)
  ultimately show ?thesis by simp
qed

text \<open>
  Claim C8, amended. Let \<open>a\<close> and \<open>b\<close> share a positive base and a capacity \<open>size\<close> of at
  most 2048, with digit lists of length \<open>size\<close> and digits in \<open>[0, base)\<close>. Then \<open>a + b\<close> and
  \<open>a - b\<close> return values; read in the operands' base, the sum encodes
  \<open>(value a + value b) mod base ^ size\<close> and the difference encodes
  \<open>(value a - value b) mod base ^ size\<close>, and all digits of both results lie in
  \<open>[0, base)\<close>.
\<close>

theorem add_sub_fixed_width:
  assumes "0 < bi_base a" and "bi_size a \<le> 2048"
    and "size_ok a" and "size_ok b" and "bi_size b = bi_size a" and "bi_base b = bi_base a"
    and "digits_in (bi_base a) (bi_value a)" and "digits_in (bi_base b) (bi_value b)"
  shows "\<exists>r s. bigint_add a b = Inr r \<and> bigint_sub a b = Inr s
           \<and> digits_val (bi_base a) (bi_value r)
               = (digits_val (bi_base a) (bi_value a) + digits_val (bi_base a) (bi_value b))
                 mod bi_base a ^ nat (bi_size a)
           \<and> digits_val (bi_base a) (bi_value s)
               = (digits_val (bi_base a) (bi_value a) - digits_val (bi_base a) (bi_value b))
                 mod bi_base a ^ nat (bi_size a)
           \<and> digits_in (bi_base a) (bi_value r) \<and> digits_in (bi_base a) (bi_value s)"
proof -
  have la: "int (length (bi_value a)) = bi_size a"
    and lb: "int (length (bi_value b)) = bi_size a"
    using assms(3,4,5) by (simp_all add: size_ok_def)
  have db: "digits_in (bi_base a) (bi_value b)" using assms(6,8) by simp
  from bigint_add_value[OF assms(1,2) la lb] bigint_sub_value[OF assms(1,2) la lb assms(7) db]
  show ?thesis by blast
qed

text \<open>
  Claim C8, amended, at \<open>a = 15\<close> and \<open>b = 97\<close> with two digits in base 10: the sum wraps to
  12 and the difference to 18.
\<close>

theorem add_sub_fixed_width_witness:
  "size_ok \<lparr>bi_size = 2, bi_base = 10, bi_value = [5, 1]\<rparr>
   \<and> size_ok \<lparr>bi_size = 2, bi_base = 10, bi_value = [7, 9]\<rparr>
   \<and> digits_in 10 [5, 1] \<and> digits_in 10 [7, 9]
   \<and> (\<exists>r s. bigint_add \<lparr>bi_size = 2, bi_base = 10, bi_value = [5, 1]\<rparr>
                        \<lparr>bi_size = 2, bi_base = 10, bi_value = [7, 9]\<rparr> = Inr r
          \<and> bigint_sub \<lparr>bi_size = 2, bi_base = 10, bi_value = [5, 1]\<rparr>
                        \<lparr>bi_size = 2, bi_base = 10, bi_value = [7, 9]\<rparr> = Inr s
          \<and> digits_val 10 (bi_value r) = 12
          \<and> digits_val 10 (bi_value s) = 18
          \<and> digits_in 10 (bi_value r) \<and> digits_in 10 (bi_value s))"
  using add_sub_fixed_width
    [of "\<lparr>bi_size = 2, bi_base = 10, bi_value = [5, 1]\<rparr>"
        "\<lparr>bi_size = 2, bi_base = 10, bi_value = [7, 9]\<rparr>"]
  by (simp add: size_ok_def)

text \<open>
  Claim C9, as stated, fails for a capacity other than 2048: the sum of the one-digit
  values 5 and 0 is a value of 2048 digits, which \<open>==\<close> tells apart from the one-digit 5.
\<close>

theorem add_zero_small_capacity_differs:
  "bigint_init (PyInt 5) 10 1 = Inr \<lparr>bi_size = 1, bi_base = 10, bi_value = [5]\<rparr>
   \<and> bigint_init (PyInt 0) 10 1 = Inr \<lparr>bi_size = 1, bi_base = 10, bi_value = [0]\<rparr>
   \<and> bigint_add \<lparr>bi_size = 1, bi_base = 10, bi_value = [5]\<rparr>
                 \<lparr>bi_size = 1, bi_base = 10, bi_value = [0]\<rparr>
       = Inr \<lparr>bi_size = 2048, bi_base = 10, bi_value = (replicate 2048 0)[0 := 5]\<rparr>
   \<and> \<not> bigint_eq \<lparr>bi_size = 2048, bi_base = 10, bi_value = (replicate 2048 0)[0 := 5]\<rparr>
                   \<lparr>bi_size = 1, bi_base = 10, bi_value = [5]\<rparr>"
proof -
  have "(replicate 2048 (0::int))[0 := 5] \<noteq> [5]"
  proof
    assume "(replicate 2048 (0::int))[0 := 5] = [5]"
    then have "length ((replicate 2048 (0::int))[0 := 5]) = length [5::int]" by (rule arg_cong)
    then show False by simp
  qed
  then show ?thesis
    by (simp add: bigint_init_int bigint_add_def add_step_def bigint_eq_def Zero_def)
qed

text \<open>
  Claim C9, amended. Let \<open>a\<close> have the default capacity 2048, a digit list of that length
  and digits in \<open>[0, base)\<close>, and let \<open>z\<close> be all zeros with 2048 digits. Then \<open>a + z\<close> and
  \<open>a - z\<close> return values that \<open>==\<close> identifies with \<open>a\<close>.
\<close>

theorem add_sub_zero_identity:
  assumes "bi_size a = 2048" and "size_ok a" and "digits_in (bi_base a) (bi_value a)"
    and "bi_value z = replicate (nat (bi_size a)) 0"
  shows "(\<exists>r. bigint_add a z = Inr r \<and> bigint_eq r a)
         \<and> (\<exists>r. bigint_sub a z = Inr r \<and> bigint_eq r a)"
  using assms bigint_add_zero[of a z] bigint_sub_zero[of a z]
  by (simp add: size_ok_def)

text \<open>
  Claim C9, amended, at \<open>a = 7\<close> with 2048 digits in base 10.
\<close>

theorem add_sub_zero_identity_witness:
  "size_ok \<lparr>bi_size = 2048, bi_base = 10, bi_value = 7 # replicate 2047 0\<rparr>
   \<and> digits_in 10 (7 # replicate 2047 0)
   \<and> (\<exists>r. bigint_add \<lparr>bi_size = 2048, bi_base = 10, bi_value = 7 # replicate 2047 0\<rparr> Zero = Inr r
          \<and> bigint_eq r \<lparr>bi_size = 2048, bi_base = 10, bi_value = 7 # replicate 2047 0\<rparr>)
   \<and> (\<exists>r. bigint_sub \<lparr>bi_size = 2048, bi_base = 10, bi_value = 7 # replicate 2047 0\<rparr> Zero = Inr r
          \<and> bigint_eq r \<lparr>bi_size = 2048, bi_base = 10, bi_value = 7 # replicate 2047 0\<rparr>)"
  using add_sub_zero_identity
    [of "\<lparr>bi_size = 2048, bi_base = 10, bi_value = 7 # replicate 2047 0\<rparr>" Zero]
  by (simp add: size_ok_def)

text \<open>
  Claim C10. Let \<open>a\<close> and \<open>m\<close> have digit lists of length \<open>size\<close>, let \<open>a\<close> have a nonzero
  digit, and let \<open>m\<close> be not all zeros while its most significant digit
  \<open>m.value[size - 1]\<close> is zero. Then \<open>a % m\<close> raises the zero-modulus \<open>ValueError\<close>: the
  first round of the reduction divides by that zero digit, so no remainder is returned.
\<close>

theorem mod_top_digit_zero_fails:
  assumes "size_ok a" and "int (length (bi_value m)) = bi_size a"
    and "\<not> all_zero (bi_value a)" and "\<not> all_zero (bi_value m)"
    and "bi_value m ! (nat (bi_size a) - 1) = 0"
  shows "bigint_mod a m = Inl ZeroModulus"
proof -
  have "bi_value a \<noteq> []" using assms(3) by auto
  then have "0 < length (bi_value a)" by simp
  with assms(1) have "0 < bi_size a" unfolding size_ok_def by linarith
  have "bi_value m \<noteq> replicate 2048 0" using assms(4) by auto
  with \<open>0 < bi_size a\<close> show ?thesis
    using assms by (intro bigint_mod_top_digit_zero) (simp_all add: size_ok_def)
qed

text \<open>
  Claim C10 at \<open>a = 5\<close> and \<open>m = 100\<close>, both with 2048 digits in base 10.
\<close>

theorem mod_top_digit_zero_fails_witness:
  "size_ok \<lparr>bi_size = 2048, bi_base = 10, bi_value = 5 # replicate 2047 0\<rparr>
   \<and> int (length (0 # 0 # 1 # replicate 2045 (0::int))) = 2048
   \<and> \<not> all_zero (5 # replicate 2047 0)
   \<and> \<not> all_zero (0 # 0 # 1 # replicate 2045 0)
   \<and> (0 # 0 # 1 # replicate 2045 (0::int)) ! (nat 2048 - 1) = 0
   \<and> bigint_mod \<lparr>bi_size = 2048, bi_base = 10, bi_value = 5 # replicate 2047 0\<rparr>
                 \<lparr>bi_size = 2048, bi_base = 10, bi_value = 0 # 0 # 1 # replicate 2045 0\<rparr>
       = Inl ZeroModulus"
  using mod_top_digit_zero_fails
    [of "\<lparr>bi_size = 2048, bi_base = 10, bi_value = 5 # replicate 2047 0\<rparr>"
        "\<lparr>bi_size = 2048, bi_base = 10, bi_value = 0 # 0 # 1 # replicate 2045 0\<rparr>"]
  by (simp add: size_ok_def)

end
